theory Spec2Isabelle
  imports Main "HOL-Library.Word"
begin

unbundle bit_operations_syntax

section \<open>Result codes of libnx\<close>

text \<open>
  The three programs of the repository (the forwarder, the manifest stub and the single-ROM
  stub) report failures as libnx \<open>Result\<close> values, unsigned 32-bit integers built by
  the macro \<open>MAKERESULT(module, description)\<close> and tested by \<open>R_FAILED\<close>. The
  macro and the enumeration values are those of libnx's header \<open>switch/result.h\<close>.
\<close>

type_synonym Result = "32 word"

definition MAKERESULT :: "32 word \<Rightarrow> 32 word \<Rightarrow> Result" where
  "MAKERESULT module description = (module AND 0x1FF) OR push_bit 9 (description AND 0x1FFF)"

definition R_FAILED :: "Result \<Rightarrow> bool" where
  "R_FAILED res = (res \<noteq> 0)"

definition Module_Libnx :: "32 word" where
  "Module_Libnx = 345"

definition LibnxError_NotFound :: "32 word" where
  "LibnxError_NotFound = 9"

definition LibnxError_IoError :: "32 word" where
  "LibnxError_IoError = 10"

section \<open>The environment: paths, the file tree and stdio\<close>

text \<open>
  The C programs act on the console's file systems through \<open>fopen\<close>, \<open>fread\<close>,
  \<open>fwrite\<close>, \<open>fgets\<close>, \<open>fclose\<close> and \<open>mkdir\<close>. The model keeps the file
  tree explicit. A path string is resolved to its list of non-empty components; the
  device prefix \<open>sdmc:\<close> is the default device and is dropped, the device \<open>romfs:\<close>
  stays as a first component and is read-only. The names \<open>.\<close> and \<open>..\<close> are ordinary
  names here. A device refuses bytes beyond \<open>max_file\<close> in one file, which is how a
  short write arises; \<open>readonly\<close> is a write-protected card. \<open>open_streams\<close> counts
  the \<open>FILE\<close> objects that are open, and \<open>romfs_rc\<close> is what \<open>romfsInit\<close> returns.
\<close>

type_synonym path = "string list"

type_synonym stream = "path \<times> nat"

record world =
  dirs :: "path set"
  files :: "path \<rightharpoonup> string"
  readonly :: bool
  max_file :: nat
  open_streams :: nat
  romfs_rc :: "32 word"

definition TAB :: char where
  "TAB = CHR 0x09"

definition LF :: char where
  "LF = CHR 0x0A"

definition CR :: char where
  "CR = CHR 0x0D"

definition NUL :: char where
  "NUL = CHR 0x00"

definition SLASH :: char where
  "SLASH = CHR ''/''"

text \<open>A C string ends at its first NUL byte.\<close>

definition cstr :: "string \<Rightarrow> string" where
  "cstr bytes = takeWhile (\<lambda>c. c \<noteq> NUL) bytes"

function split_path :: "string \<Rightarrow> path" where
  "split_path [] = []"
| "split_path (c # cs) =
     (if c = SLASH then split_path cs
      else (c # takeWhile (\<lambda>x. x \<noteq> SLASH) cs) # split_path (dropWhile (\<lambda>x. x \<noteq> SLASH) cs))"
  by pat_completeness auto
termination
  by (relation "measure length") (auto simp: length_dropWhile_le less_Suc_eq_le)

definition resolve :: "string \<Rightarrow> path" where
  "resolve name =
     (case split_path name of
        [] \<Rightarrow> []
      | d # rest \<Rightarrow> if d = ''sdmc:'' then rest else d # rest)"

definition ends_slash :: "string \<Rightarrow> bool" where
  "ends_slash name = (case rev name of [] \<Rightarrow> False | c # _ \<Rightarrow> c = SLASH)"

definition is_dir :: "world \<Rightarrow> path \<Rightarrow> bool" where
  "is_dir s p = (if p = [] then True else p \<in> dirs s)"

definition on_romfs :: "path \<Rightarrow> bool" where
  "on_romfs p = (case p of [] \<Rightarrow> False | d # _ \<Rightarrow> d = ''romfs:'')"

definition writable :: "world \<Rightarrow> path \<Rightarrow> bool" where
  "writable s p = (if readonly s then False else \<not> on_romfs p)"

definition content :: "world \<Rightarrow> path \<Rightarrow> string" where
  "content s p = (case files s p of None \<Rightarrow> [] | Some bytes \<Rightarrow> bytes)"

datatype errno = EEXIST | ENOENT | EROFS

text \<open>
  \<open>mkdir\<close> returns \<open>None\<close> for success (the C function's 0) and the \<open>errno\<close> it sets
  otherwise. A name that exists, as a directory or as a file, is \<open>EEXIST\<close>.
\<close>

definition mkdir :: "world \<Rightarrow> string \<Rightarrow> errno option \<times> world" where
  "mkdir s name =
     (let p = resolve name in
      if name = [] then (Some ENOENT, s)
      else if p = [] then (Some EEXIST, s)
      else if p \<in> dirs s then (Some EEXIST, s)
      else if files s p \<noteq> None then (Some EEXIST, s)
      else if is_dir s (butlast p) then
        (if writable s p then (None, s\<lparr>dirs := insert p (dirs s)\<rparr>) else (Some EROFS, s))
      else (Some ENOENT, s))"

text \<open>\<open>fopen(name, "rb")\<close>: the name must be a regular file.\<close>

definition fopen_rb :: "world \<Rightarrow> string \<Rightarrow> (stream \<times> world) option" where
  "fopen_rb s name =
     (let p = resolve name in
      if ends_slash name then None
      else if files s p = None then None
      else Some ((p, 0), s\<lparr>open_streams := open_streams s + 1\<rparr>))"

text \<open>
  \<open>fopen(name, "wb")\<close>: creates the file or truncates it to length zero. It fails on a
  directory, under a missing directory, and on a read-only device.
\<close>

definition fopen_wb :: "world \<Rightarrow> string \<Rightarrow> (stream \<times> world) option" where
  "fopen_wb s name =
     (let p = resolve name in
      if p = [] then None
      else if ends_slash name then None
      else if p \<in> dirs s then None
      else if is_dir s (butlast p) then
        (if writable s p
         then Some ((p, 0), s\<lparr>files := (files s)(p \<mapsto> []), open_streams := open_streams s + 1\<rparr>)
         else None)
      else None)"

text \<open>\<open>fopen(name, "a")\<close>: creates the file if it is missing and writes at its end.\<close>

definition fopen_a :: "world \<Rightarrow> string \<Rightarrow> (stream \<times> world) option" where
  "fopen_a s name =
     (let p = resolve name in
      if p = [] then None
      else if ends_slash name then None
      else if p \<in> dirs s then None
      else if is_dir s (butlast p) then
        (if writable s p
         then Some ((p, length (content s p)),
                    s\<lparr>files := (files s)(p \<mapsto> content s p), open_streams := open_streams s + 1\<rparr>)
         else None)
      else None)"

definition fclose :: "world \<Rightarrow> world" where
  "fclose s = s\<lparr>open_streams := open_streams s - 1\<rparr>"

text \<open>\<open>fread(buf, 1, n, f)\<close>: the next at most \<open>n\<close> bytes at the stream's position.\<close>

definition fread :: "world \<Rightarrow> stream \<Rightarrow> nat \<Rightarrow> string \<times> stream" where
  "fread s f n =
     (let buf = take n (drop (snd f) (content s (fst f)))
      in (buf, (fst f, snd f + length buf)))"

text \<open>Writing \<open>data\<close> at offset \<open>off\<close> of a file; a gap is filled with NUL bytes.\<close>

definition write_at :: "string \<Rightarrow> nat \<Rightarrow> string \<Rightarrow> string" where
  "write_at old off data =
     (if data = [] then old
      else take off old @ replicate (off - length old) NUL @ data @ drop (off + length data) old)"

text \<open>
  \<open>fwrite(buf, 1, n, f)\<close>: returns how many bytes were written, fewer than \<open>n\<close> when
  the file would grow beyond \<open>max_file\<close>.
\<close>

definition fwrite :: "world \<Rightarrow> stream \<Rightarrow> string \<Rightarrow> nat \<times> stream \<times> world" where
  "fwrite s f buf =
     (let w = min (length buf) (max_file s - snd f);
          bytes = write_at (content s (fst f)) (snd f) (take w buf)
      in (w, (fst f, snd f + w), s\<lparr>files := (files s)(fst f \<mapsto> bytes)\<rparr>))"

section \<open>The single-ROM stub: \<open>stub/source/main.c\<close>\<close>

text \<open>
  \<open>copyFile\<close> of the single-ROM stub. The loop reads chunks of 8192 bytes and passes
  each to \<open>fwrite\<close>, whose return value it does not look at.
\<close>

function stub_copy_loop :: "world \<Rightarrow> stream \<Rightarrow> stream \<Rightarrow> world" where
  "stub_copy_loop s src dst =
     (case fread s src 8192 of
        (buf, src') \<Rightarrow>
          if length buf > 0 then
            (case fwrite s dst buf of (w, dst', s') \<Rightarrow> stub_copy_loop s' src' dst')
          else s)"
  by pat_completeness auto

lemma length_write_at:
  "length (write_at old off data) =
     (if data = [] then length old else max (length old) (off + length data))"
  by (auto simp: write_at_def)

lemma fwrite_content_bound:
  assumes "fwrite s f buf = (w, f', s')"
  shows "max (length (content s' p)) (max_file s') \<le> max (length (content s p)) (max_file s)"
proof -
  let ?w = "min (length buf) (max_file s - snd f)"
  have s': "s' = s\<lparr>files := (files s)(fst f \<mapsto> write_at (content s (fst f)) (snd f) (take ?w buf))\<rparr>"
    using assms by (auto simp: fwrite_def Let_def)
  have "length (write_at (content s (fst f)) (snd f) (take ?w buf))
          \<le> max (length (content s (fst f))) (max_file s)"
    by (cases buf) (auto simp: length_write_at min_def)
  then show ?thesis
    unfolding s' by (auto simp: content_def)
qed

text \<open>
  The loop ends: the read position grows with every chunk and stays below the length of
  the source, which writing (even into the source itself) cannot push beyond
  \<open>max_file\<close>.
\<close>

termination stub_copy_loop
proof (relation "measure (\<lambda>(s, src, dst). max (length (content s (fst src))) (max_file s) - snd src)",
    goal_cases)
  case 1
  show ?case by simp
next
  case (2 s src dst buf src' w rest dst' s')
  have fw: "fwrite s dst buf = (w, dst', s')"
    using 2(3,4) by simp
  have rd: "buf = take 8192 (drop (snd src) (content s (fst src)))"
    "src' = (fst src, snd src + length buf)"
    using 2(1) by (auto simp: fread_def Let_def)
  have pos: "snd src + length buf \<le> length (content s (fst src))"
    using rd(1) 2(2) by auto
  have n: "0 < length buf"
    using 2(2) .
  have le: "max (length (content s' (fst src))) (max_file s')
              \<le> max (length (content s (fst src))) (max_file s)"
    by (rule fwrite_content_bound[OF fw])
  have "max (length (content s' (fst src))) (max_file s') - (snd src + length buf)
          < max (length (content s (fst src))) (max_file s) - snd src"
    using n le pos by arith
  then show ?case
    by (simp add: rd(2))
qed

definition stub_copyFile :: "world \<Rightarrow> string \<Rightarrow> string \<Rightarrow> Result \<times> world" where
  "stub_copyFile s srcPath dstPath =
     (case fopen_rb s srcPath of
        None \<Rightarrow> (MAKERESULT Module_Libnx LibnxError_NotFound, s)
      | Some (src, s1) \<Rightarrow>
          (case fopen_wb s1 dstPath of
             None \<Rightarrow> (MAKERESULT Module_Libnx LibnxError_IoError, fclose s1)
           | Some (dst, s2) \<Rightarrow> (0, fclose (fclose (stub_copy_loop s2 src dst)))))"

declare stub_copy_loop.simps [simp del]

lemma take_take_drop: "take a xs @ take b (drop a xs) = take (a + b) xs"
  by (metis take_add)

lemma stub_copy_loop_closed:
  assumes "fst src \<noteq> fst dst"
    and "snd src \<le> length (content s (fst src))"
    and "snd dst = min (snd src) (max_file s)"
    and "files s (fst dst) = Some (take (snd dst) (content s (fst src)))"
  shows "stub_copy_loop s src dst =
           s\<lparr>files := (files s)(fst dst \<mapsto> take (max_file s) (content s (fst src)))\<rparr>"
  using assms
proof (induction s src dst rule: stub_copy_loop.induct)
  case (1 s src dst)
  let ?data = "content s (fst src)"
  let ?buf = "take 8192 (drop (snd src) ?data)"
  show ?case
  proof (cases "?buf = []")
    case True
    then have "snd src = length ?data" using 1(3) by auto
    then have "take (snd dst) ?data = take (max_file s) ?data"
      using 1(4) by (simp add: min_def)
    then have "s\<lparr>files := (files s)(fst dst \<mapsto> take (max_file s) ?data)\<rparr> = s"
      using 1(5) by (simp add: fun_upd_idem)
    moreover have "stub_copy_loop s src dst = s"
      using True by (subst stub_copy_loop.simps) (simp add: fread_def Let_def)
    ultimately show ?thesis by (simp only:)
  next
    case False
    define w where "w = min (length ?buf) (max_file s - snd dst)"
    define bytes where "bytes = write_at (content s (fst dst)) (snd dst) (take w ?buf)"
    define s' where "s' = s\<lparr>files := (files s)(fst dst \<mapsto> bytes)\<rparr>"
    define src' where "src' = (fst src, snd src + length ?buf)"
    define dst' where "dst' = (fst dst, snd dst + w)"
    have rd: "fread s src 8192 = (?buf, src')"
      by (simp add: fread_def Let_def src'_def)
    have fw: "fwrite s dst ?buf = (w, dst', s')"
      by (simp add: fwrite_def Let_def w_def dst'_def s'_def bytes_def)
    have lt: "snd src < length ?data" using False by auto
    have cd: "content s (fst dst) = take (snd dst) ?data"
      using 1(5) by (simp add: content_def)
    have bytes: "bytes = take (snd dst + w) ?data"
    proof (cases "w = 0")
      case True
      then show ?thesis by (simp add: bytes_def write_at_def cd)
    next
      case False
      then have "snd dst < max_file s" by (simp add: w_def)
      then have eq: "snd dst = snd src" using 1(4) by (simp add: min_def split: if_splits)
      have "take w ?buf \<noteq> []" using False \<open>?buf \<noteq> []\<close> by (auto simp: w_def)
      then have "bytes = take (snd src) ?data @ take w (drop (snd src) ?data)"
        using lt by (simp add: bytes_def write_at_def cd eq w_def min_def)
      then show ?thesis by (simp add: eq take_take_drop)
    qed
    have c': "content s' (fst src) = ?data"
      using 1(2) by (simp add: s'_def content_def)
    have m': "max_file s' = max_file s" by (simp add: s'_def)
    have IH: "stub_copy_loop s' src' dst' =
           s'\<lparr>files := (files s')(fst dst' \<mapsto> take (max_file s') (content s' (fst src')))\<rparr>"
    proof (rule 1(1)[OF rd[symmetric] _ fw[symmetric] refl])
      show "0 < length ?buf" using False by simp
      show "fst src' \<noteq> fst dst'" using 1(2) by (simp add: src'_def dst'_def)
      show "snd src' \<le> length (content s' (fst src'))"
        using lt by (simp add: src'_def c')
      show "snd dst' = min (snd src') (max_file s')"
        using 1(4) lt by (auto simp: src'_def dst'_def m' w_def min_def)
      have "files s' (fst dst) = Some bytes"
        by (simp add: s'_def)
      then show "files s' (fst dst') = Some (take (snd dst') (content s' (fst src')))"
        by (simp add: src'_def dst'_def c' bytes)
    qed
    have "stub_copy_loop s src dst = stub_copy_loop s' src' dst'"
      using False by (subst stub_copy_loop.simps) (simp add: rd fw)
    also have "\<dots> = s\<lparr>files := (files s)(fst dst \<mapsto> take (max_file s) ?data)\<rparr>"
      unfolding IH using 1(2) by (simp add: s'_def src'_def dst'_def content_def)
    finally show ?thesis .
  qed
qed


text \<open>A card that takes four bytes per file, and a bundled ROM of ten bytes.\<close>

definition stub_card :: world where
  "stub_card =
     \<lparr>dirs = {[''switch''], [''switch'', ''roms'']},
      files = [[''romfs:'', ''rom.bin''] \<mapsto> ''0123456789''],
      readonly = False, max_file = 4, open_streams = 0, romfs_rc = 0\<rparr>"

lemma fopen_rb_stream: "fopen_rb s name = Some (f, s1) \<Longrightarrow> f = (resolve name, 0) \<and> s1 = s\<lparr>open_streams := open_streams s + 1\<rparr>"
  by (auto simp: fopen_rb_def Let_def split: if_splits)

lemma fopen_wb_stream: "fopen_wb s name = Some (f, s1) \<Longrightarrow> f = (resolve name, 0) \<and> 
   s1 = s\<lparr>files := (files s)(resolve name \<mapsto> []), open_streams := open_streams s + 1\<rparr>"
  by (auto simp: fopen_wb_def Let_def split: if_splits)

text \<open>
  Claim C10. In the single-ROM stub, \<open>copyFile\<close> returns 0 whenever both files open,
  whatever \<open>fwrite\<close> returned: the destination then holds only the first
  \<open>max_file\<close> bytes of the source (all of it when it fits, a truncated copy after a
  short write), and the result is 0 in either case.
\<close>

theorem stub_copyFile_reports_success:
  assumes "fopen_rb s srcPath = Some (src, s1)"
    and "fopen_wb s1 dstPath = Some (dst, s2)"
  shows "fst (stub_copyFile s srcPath dstPath) = 0 \<and>
         (if resolve srcPath = resolve dstPath then True
          else files (snd (stub_copyFile s srcPath dstPath)) (resolve dstPath)
                 = Some (take (max_file s) (content s (resolve srcPath))))"
proof -
  note a = fopen_rb_stream[OF assms(1)] and b = fopen_wb_stream[OF assms(2)]
  have r: "stub_copyFile s srcPath dstPath = (0, fclose (fclose (stub_copy_loop s2 src dst)))"
    by (simp add: stub_copyFile_def assms)
  show ?thesis
  proof (cases "resolve srcPath = resolve dstPath")
    case True
    then show ?thesis by (simp add: r)
  next
    case False
    have c: "content s2 (resolve srcPath) = content s (resolve srcPath)"
      using False a b by (simp add: content_def)
    have "stub_copy_loop s2 src dst =
           s2\<lparr>files := (files s2)(fst dst \<mapsto> take (max_file s2) (content s2 (fst src)))\<rparr>"
      by (rule stub_copy_loop_closed) (use False a b in \<open>simp_all add: content_def\<close>)
    then show ?thesis
      using False a b c by (simp add: r fclose_def)
  qed
qed

theorem stub_copyFile_reports_success_witness:
  "fopen_rb stub_card ''romfs:/rom.bin'' \<noteq> None \<and>
   fst (stub_copyFile stub_card ''romfs:/rom.bin'' ''/switch/roms/rom.bin'') = 0 \<and>
   files (snd (stub_copyFile stub_card ''romfs:/rom.bin'' ''/switch/roms/rom.bin''))
     [''switch'', ''roms'', ''rom.bin''] = Some ''0123'' \<and>
   content stub_card [''romfs:'', ''rom.bin''] = ''0123456789''"
proof -
  have p1: "resolve ''romfs:/rom.bin'' = [''romfs:'', ''rom.bin'']"
    by (simp add: resolve_def SLASH_def)
  have p2: "resolve ''/switch/roms/rom.bin'' = [''switch'', ''roms'', ''rom.bin'']"
    by (simp add: resolve_def SLASH_def)
  have a: "fopen_rb stub_card ''romfs:/rom.bin''
             = Some (([''romfs:'', ''rom.bin''], 0), stub_card\<lparr>open_streams := 1\<rparr>)"
    by (simp add: fopen_rb_def Let_def p1 ends_slash_def SLASH_def stub_card_def)
  have b: "fopen_wb (stub_card\<lparr>open_streams := 1\<rparr>) ''/switch/roms/rom.bin''
             = Some (([''switch'', ''roms'', ''rom.bin''], 0),
                 stub_card\<lparr>open_streams := 1,
                   files := (files stub_card)([''switch'', ''roms'', ''rom.bin''] \<mapsto> []),
                   open_streams := 2\<rparr>)"
    by (simp add: fopen_wb_def Let_def p2 ends_slash_def SLASH_def stub_card_def is_dir_def writable_def
        on_romfs_def)
  show ?thesis
    using stub_copyFile_reports_success[OF a b] a
    by (simp add: p1 p2 content_def stub_card_def)
qed

section \<open>The forwarder: \<open>forwarder/source/main.c\<close>\<close>

definition LOG_DIR :: string where
  "LOG_DIR = ''sdmc:/switch-rom-packer''"

definition LOG_PATH :: string where
  "LOG_PATH = LOG_DIR @ ''/forwarder.log''"

definition ARG_FILE :: string where
  "ARG_FILE = ''romfs:/nextArgv''"

definition NRO_FILE :: string where
  "NRO_FILE = ''romfs:/nextNroPath''"

definition ensure_log_dir :: "world \<Rightarrow> world" where
  "ensure_log_dir s = snd (mkdir s LOG_DIR)"

text \<open>\<open>fprintf(f, "%s\n", s)\<close> is one write of the line; its result is not looked at.\<close>

definition log_msg :: "world \<Rightarrow> string \<Rightarrow> world" where
  "log_msg s0 msg =
     (let s = ensure_log_dir s0 in
      case fopen_a s LOG_PATH of
        None \<Rightarrow> s
      | Some (f, s1) \<Rightarrow> (case fwrite s1 f (msg @ [LF]) of (w, f', s2) \<Rightarrow> fclose s2))"

text \<open>
  \<open>log_printf\<close> takes the text that \<open>vfprintf\<close> formats; the newline is a second
  write.
\<close>

definition log_printf :: "world \<Rightarrow> string \<Rightarrow> world" where
  "log_printf s0 formatted =
     (let s = ensure_log_dir s0 in
      case fopen_a s LOG_PATH of
        None \<Rightarrow> s
      | Some (f, s1) \<Rightarrow>
          (case fwrite s1 f formatted of
             (w, f1, s2) \<Rightarrow> (case fwrite s2 f1 [LF] of (w', f2, s3) \<Rightarrow> fclose s3)))"

text \<open>The loop \<open>while (n && (out[n-1] == ... )) n--\<close> of \<open>read_text_file\<close>.\<close>

fun trim_count :: "string \<Rightarrow> nat \<Rightarrow> nat" where
  "trim_count out 0 = 0"
| "trim_count out (Suc n) =
     (if out ! n = LF \<or> out ! n = CR \<or> out ! n = CHR '' '' \<or> out ! n = TAB
      then trim_count out n else Suc n)"

definition read_text_file :: "world \<Rightarrow> string \<Rightarrow> nat \<Rightarrow> string" where
  "read_text_file s path outsz =
     (case fopen_rb s path of
        None \<Rightarrow> []
      | Some (f, s1) \<Rightarrow>
          (case fread s1 f (outsz - 1) of
             (out, f') \<Rightarrow> cstr (take (trim_count out (length out)) out)))"

definition chainload_nro :: "string \<Rightarrow> string \<Rightarrow> Result" where
  "chainload_nro nroPath argvLine = MAKERESULT 346 1"

text \<open>\<open>%x\<close>: lower-case hexadecimal without leading zeros.\<close>

fun hex :: "nat \<Rightarrow> string" where
  "hex n = (if n < 16 then [''0123456789abcdef'' ! n]
            else hex (n div 16) @ [''0123456789abcdef'' ! (n mod 16)])"

declare hex.simps [simp del]

datatype event = Print string | Chainload string string | WaitPlus

definition forwarder_main :: "world \<Rightarrow> event list \<times> world" where
  "forwarder_main s0 =
     (let s1 = log_msg s0 ''SRP forwarder start'';
          nroPath = read_text_file s1 NRO_FILE 512;
          argvLine = read_text_file s1 ARG_FILE 768;
          s2 = log_printf s1 (''nextNroPath='' @ (if nroPath \<noteq> [] then nroPath else ''(missing)''));
          s3 = log_printf s2 (''nextArgv='' @ (if argvLine \<noteq> [] then argvLine else ''(missing)''));
          banner = Print (''Switch ROM Packer Forwarder'' @ [LF, LF]);
          press = Print (LF # ''Press + to exit.'' @ [LF])
      in if nroPath = [] then
           ([banner, Print (''Error: romfs:/nextNroPath missing'' @ [LF]), press, WaitPlus],
            log_msg s3 ''ERROR: nextNroPath missing'')
         else
           (let target = Print (''Target NRO:'' @ [LF] @ nroPath @ [LF, LF]);
                rc = chainload_nro nroPath argvLine
            in if R_FAILED rc then
                 ([banner, target, Chainload nroPath argvLine,
                   Print (''Launch not implemented yet (rc=0x'' @ hex (unat rc) @ '')'' @ [LF]),
                   press, WaitPlus],
                  log_printf s3 (''chainload_nro not implemented (rc=0x'' @ hex (unat rc) @ '')''))
               else ([banner, target, Chainload nroPath argvLine, press, WaitPlus], s3)))"

lemma hex_stub_rc: "hex (unat (MAKERESULT 346 1)) = ''35a''"
  by (simp add: MAKERESULT_def hex.simps)

definition is_ws :: "char \<Rightarrow> bool" where
  "is_ws c = (c = LF \<or> c = CR \<or> c = CHR '' '' \<or> c = TAB)"

lemma trim_count_le: "trim_count out n \<le> n"
  by (induction n) auto

lemma take_trim_count:
  "n \<le> length out \<Longrightarrow> take (trim_count out n) out = rev (dropWhile is_ws (rev (take n out)))"
proof (induction n)
  case 0
  then show ?case by simp
next
  case (Suc n)
  then have t: "take (Suc n) out = take n out @ [out ! n]"
    by (simp add: take_Suc_conv_app_nth)
  show ?case using Suc by (auto simp: t is_ws_def)
qed

lemma resolve_LOG_DIR: "resolve LOG_DIR = [''switch-rom-packer'']"
  by (simp add: resolve_def LOG_DIR_def SLASH_def)

lemma resolve_LOG_PATH: "resolve LOG_PATH = [''switch-rom-packer'', ''forwarder.log'']"
  by (simp add: resolve_def LOG_PATH_def LOG_DIR_def SLASH_def)

lemma resolve_NRO_FILE: "resolve NRO_FILE = [''romfs:'', ''nextNroPath'']"
  by (simp add: resolve_def NRO_FILE_def SLASH_def)

lemma resolve_ARG_FILE: "resolve ARG_FILE = [''romfs:'', ''nextArgv'']"
  by (simp add: resolve_def ARG_FILE_def SLASH_def)


text \<open>
  When the card is writable, nothing but a directory stands at the log directory's name and
  no directory stands at the log file's name, every log call appends its line, cut where
  the file reaches \<open>max_file\<close>.
\<close>

definition log_ready :: "world \<Rightarrow> bool" where
  "log_ready s =
     (\<not> readonly s \<and> files s [''switch-rom-packer''] = None \<and>
      [''switch-rom-packer'', ''forwarder.log''] \<notin> dirs s)"

definition log_appended :: "world \<Rightarrow> string \<Rightarrow> world" where
  "log_appended s text =
     s\<lparr>dirs := insert [''switch-rom-packer''] (dirs s),
       files := (files s)([''switch-rom-packer'', ''forwarder.log''] \<mapsto>
          content s [''switch-rom-packer'', ''forwarder.log''] @
          take (max_file s - length (content s [''switch-rom-packer'', ''forwarder.log''])) text)\<rparr>"

lemma ends_slash_LOG_PATH: "\<not> ends_slash LOG_PATH"
  by (simp add: ends_slash_def LOG_PATH_def LOG_DIR_def SLASH_def)

lemma LOG_DIR_not_Nil: "LOG_DIR \<noteq> []"
  by (simp add: LOG_DIR_def)

lemma ensure_log_dir_ready:
  assumes "log_ready s"
  shows "ensure_log_dir s = s\<lparr>dirs := insert [''switch-rom-packer''] (dirs s)\<rparr>"
  using assms
  by (auto simp: ensure_log_dir_def mkdir_def resolve_LOG_DIR log_ready_def is_dir_def
      writable_def on_romfs_def Let_def LOG_DIR_not_Nil insert_absorb)

lemma fopen_a_ready:
  assumes "log_ready s"
  shows "fopen_a (s\<lparr>dirs := insert [''switch-rom-packer''] (dirs s)\<rparr>) LOG_PATH =
     Some (([''switch-rom-packer'', ''forwarder.log''],
              length (content s [''switch-rom-packer'', ''forwarder.log''])),
           s\<lparr>dirs := insert [''switch-rom-packer''] (dirs s),
             files := (files s)([''switch-rom-packer'', ''forwarder.log''] \<mapsto>
                content s [''switch-rom-packer'', ''forwarder.log'']),
             open_streams := open_streams s + 1\<rparr>)"
  using assms
  by (simp add: fopen_a_def resolve_LOG_PATH ends_slash_LOG_PATH log_ready_def is_dir_def
      writable_def on_romfs_def Let_def content_def)

lemma write_at_end: "write_at old (length old) data = old @ data"
  by (simp add: write_at_def)

definition append_capped :: "world \<Rightarrow> path \<Rightarrow> string \<Rightarrow> world" where
  "append_capped s p buf =
     s\<lparr>files := (files s)(p \<mapsto> content s p @ take (max_file s - length (content s p)) buf)\<rparr>"

lemma fwrite_at_end:
  assumes "n = length (content s p)"
  shows "fwrite s (p, n) buf =
           (min (length buf) (max_file s - n),
            (p, length (content (append_capped s p buf) p)),
            append_capped s p buf)"
  using assms by (simp add: fwrite_def Let_def write_at_end min_def append_capped_def content_def)

lemma append_capped_twice:
  "append_capped (append_capped s p a) p b = append_capped s p (a @ b)"
  by (simp add: append_capped_def content_def min_def)

lemma log_appended_alt:
  "log_ready s \<Longrightarrow>
   log_appended s text =
     fclose (append_capped
       (s\<lparr>dirs := insert [''switch-rom-packer''] (dirs s),
             files := (files s)([''switch-rom-packer'', ''forwarder.log''] \<mapsto>
                content s [''switch-rom-packer'', ''forwarder.log'']),
             open_streams := open_streams s + 1\<rparr>)
       [''switch-rom-packer'', ''forwarder.log''] text)"
  by (simp add: log_appended_def append_capped_def fclose_def content_def)

lemma log_msg_ready:
  assumes "log_ready s"
  shows "log_msg s msg = log_appended s (msg @ [LF])"
proof -
  let ?p = "[''switch-rom-packer'', ''forwarder.log'']"
  define s1 where "s1 = s\<lparr>dirs := insert [''switch-rom-packer''] (dirs s),
             files := (files s)(?p \<mapsto> content s ?p), open_streams := open_streams s + 1\<rparr>"
  have c1: "length (content s ?p) = length (content s1 ?p)"
    by (simp add: content_def s1_def)
  have op: "fopen_a (ensure_log_dir s) LOG_PATH = Some ((?p, length (content s ?p)), s1)"
    using assms by (simp add: ensure_log_dir_ready fopen_a_ready s1_def)
  have "log_msg s msg = fclose (append_capped s1 ?p (msg @ [LF]))"
    by (simp add: log_msg_def op fwrite_at_end[OF c1])
  then show ?thesis
    using assms by (simp add: log_appended_alt s1_def)
qed

lemma log_printf_ready:
  assumes "log_ready s"
  shows "log_printf s formatted = log_appended s (formatted @ [LF])"
proof -
  let ?p = "[''switch-rom-packer'', ''forwarder.log'']"
  define s1 where "s1 = s\<lparr>dirs := insert [''switch-rom-packer''] (dirs s),
             files := (files s)(?p \<mapsto> content s ?p), open_streams := open_streams s + 1\<rparr>"
  have c1: "length (content s ?p) = length (content s1 ?p)"
    by (simp add: content_def s1_def)
  have op: "fopen_a (ensure_log_dir s) LOG_PATH = Some ((?p, length (content s ?p)), s1)"
    using assms by (simp add: ensure_log_dir_ready fopen_a_ready s1_def)
  have "log_printf s formatted = fclose (append_capped (append_capped s1 ?p formatted) ?p [LF])"
    by (simp add: log_printf_def op fwrite_at_end[OF c1] fwrite_at_end[OF refl])
  then show ?thesis
    using assms by (simp add: log_appended_alt s1_def append_capped_twice)
qed

lemma log_ready_appended: "log_ready s \<Longrightarrow> log_ready (log_appended s text)"
  by (simp add: log_ready_def log_appended_def)

lemma log_appended_twice: "log_appended (log_appended s a) b = log_appended s (a @ b)"
  by (simp add: log_appended_def content_def min_def)


lemma mkdir_files: "files (snd (mkdir s name)) = files s"
  by (simp add: mkdir_def Let_def)

lemma fwrite_files_other: "q \<noteq> fst f \<Longrightarrow> files (snd (snd (fwrite s f buf))) q = files s q"
  by (simp add: fwrite_def Let_def)

lemma fopen_a_files_other:
  "fopen_a s name = Some (f, s1) \<Longrightarrow> fst f = resolve name \<and> (q \<noteq> resolve name \<longrightarrow> files s1 q = files s q)"
  by (auto simp: fopen_a_def Let_def split: if_splits)

lemma ensure_log_dir_files: "files (ensure_log_dir s) = files s"
  by (simp add: ensure_log_dir_def mkdir_files)

lemma log_msg_files_other:
  assumes "q \<noteq> resolve LOG_PATH"
  shows "files (log_msg s msg) q = files s q"
proof (cases "fopen_a (ensure_log_dir s) LOG_PATH")
  case None
  then show ?thesis by (simp add: log_msg_def ensure_log_dir_files)
next
  case (Some a)
  obtain f s1 where a: "a = (f, s1)" by (cases a)
  note o = fopen_a_files_other[OF Some[unfolded a], of q]
  obtain w f' s2 where fw: "fwrite s1 f (msg @ [LF]) = (w, f', s2)"
    by (cases "fwrite s1 f (msg @ [LF])")
  have "files s2 q = files s1 q"
    using fwrite_files_other[of q f s1 "msg @ [LF]"] o assms by (simp add: fw)
  then show ?thesis
    using o assms by (simp add: log_msg_def Some a fw fclose_def ensure_log_dir_files)
qed

lemma log_printf_files_other:
  assumes "q \<noteq> resolve LOG_PATH"
  shows "files (log_printf s formatted) q = files s q"
proof (cases "fopen_a (ensure_log_dir s) LOG_PATH")
  case None
  then show ?thesis by (simp add: log_printf_def ensure_log_dir_files)
next
  case (Some a)
  obtain f s1 where a: "a = (f, s1)" by (cases a)
  note o = fopen_a_files_other[OF Some[unfolded a], of q]
  obtain w f1 s2 where fw: "fwrite s1 f formatted = (w, f1, s2)"
    by (cases "fwrite s1 f formatted")
  obtain w' f2 s3 where fw2: "fwrite s2 f1 [LF] = (w', f2, s3)"
    by (cases "fwrite s2 f1 [LF]")
  have f1: "fst f1 = fst f"
    using fw by (auto simp: fwrite_def Let_def)
  have "files s2 q = files s1 q"
    using fwrite_files_other[of q f s1 formatted] o assms by (simp add: fw)
  moreover have "files s3 q = files s2 q"
    using fwrite_files_other[of q f1 s2 "[LF]"] o assms f1 by (simp add: fw2)
  ultimately show ?thesis
    using o assms by (simp add: log_printf_def Some a fw fw2 fclose_def ensure_log_dir_files)
qed

lemma read_text_file_files:
  "files s' (resolve name) = files s (resolve name) \<Longrightarrow>
   read_text_file s' name outsz = read_text_file s name outsz"
  by (simp add: read_text_file_def fopen_rb_def fread_def content_def Let_def)

lemma read_text_file_log_msg:
  "resolve name \<noteq> resolve LOG_PATH \<Longrightarrow>
   read_text_file (log_msg s msg) name outsz = read_text_file s name outsz"
  by (rule read_text_file_files) (simp add: log_msg_files_other)

lemma take_trim_count_all:
  "take (trim_count out (length out)) out = rev (dropWhile is_ws (rev out))"
  using take_trim_count[of "length out" out] by simp

lemma read_text_file_content:
  "read_text_file s name outsz =
     (if ends_slash name then []
      else cstr (rev (dropWhile is_ws (rev (take (outsz - 1) (content s (resolve name)))))))"
proof (cases "fopen_rb s name")
  case None
  then have "ends_slash name \<or> content s (resolve name) = []"
    by (auto simp: fopen_rb_def Let_def content_def split: if_splits)
  then show ?thesis
    using None by (auto simp: read_text_file_def cstr_def)
next
  case (Some a)
  then have a: "a = ((resolve name, 0), s\<lparr>open_streams := open_streams s + 1\<rparr>)"
    and e: "\<not> ends_slash name"
    by (auto simp: fopen_rb_def Let_def split: if_splits)
  define out where "out = take (outsz - 1) (content s (resolve name))"
  have "fread (s\<lparr>open_streams := open_streams s + 1\<rparr>) (resolve name, 0) (outsz - 1)
          = (out, (resolve name, length out))"
    by (simp add: fread_def out_def content_def)
  then have "read_text_file s name outsz = cstr (take (trim_count out (length out)) out)"
    by (simp add: read_text_file_def Some a)
  then have "read_text_file s name outsz = cstr (rev (dropWhile is_ws (rev out)))"
    by (simp only: take_trim_count_all)
  then show ?thesis
    using e by (simp only: out_def if_False)
qed

lemma cstr_no_NUL: "NUL \<notin> set bytes \<Longrightarrow> cstr bytes = bytes"
  by (auto simp: cstr_def)

lemma length_cstr: "length (cstr bytes) \<le> length bytes"
  by (simp add: cstr_def length_takeWhile_le)






lemma content_log_appended:
  "content (log_appended s text) (resolve LOG_PATH) =
     content s (resolve LOG_PATH) @
     take (max_file s - length (content s (resolve LOG_PATH))) text"
  by (simp add: log_appended_def resolve_LOG_PATH content_def)

lemma records_not_log:
  "resolve NRO_FILE \<noteq> resolve LOG_PATH" "resolve ARG_FILE \<noteq> resolve LOG_PATH"
  by (simp_all add: resolve_NRO_FILE resolve_ARG_FILE resolve_LOG_PATH)

lemma forwarder_main_missing:
  assumes "read_text_file s NRO_FILE 512 = []"
  shows "forwarder_main s =
     ([Print (''Switch ROM Packer Forwarder'' @ [LF, LF]),
       Print (''Error: romfs:/nextNroPath missing'' @ [LF]),
       Print (LF # ''Press + to exit.'' @ [LF]), WaitPlus],
      log_msg
        (log_printf
          (log_printf (log_msg s ''SRP forwarder start'') ''nextNroPath=(missing)'')
          (''nextArgv='' @ (if read_text_file s ARG_FILE 768 \<noteq> []
                            then read_text_file s ARG_FILE 768 else ''(missing)'')))
        ''ERROR: nextNroPath missing'')"
  using assms
  by (simp add: forwarder_main_def Let_def read_text_file_log_msg records_not_log)

lemma forwarder_main_target:
  assumes "read_text_file s NRO_FILE 512 \<noteq> []"
  shows "forwarder_main s =
     ([Print (''Switch ROM Packer Forwarder'' @ [LF, LF]),
       Print (''Target NRO:'' @ [LF] @ read_text_file s NRO_FILE 512 @ [LF, LF]),
       Chainload (read_text_file s NRO_FILE 512) (read_text_file s ARG_FILE 768),
       Print (''Launch not implemented yet (rc=0x35a)'' @ [LF]),
       Print (LF # ''Press + to exit.'' @ [LF]), WaitPlus],
      log_printf
        (log_printf
          (log_printf (log_msg s ''SRP forwarder start'')
             (''nextNroPath='' @ read_text_file s NRO_FILE 512))
          (''nextArgv='' @ (if read_text_file s ARG_FILE 768 \<noteq> []
                            then read_text_file s ARG_FILE 768 else ''(missing)'')))
        ''chainload_nro not implemented (rc=0x35a)'')"
proof -
  have "R_FAILED (MAKERESULT 346 1)"
    by (simp add: R_FAILED_def MAKERESULT_def)
  then show ?thesis
    using assms
    by (simp add: forwarder_main_def Let_def read_text_file_log_msg records_not_log
        chainload_nro_def hex_stub_rc)
qed

text \<open>
  Claim C6. When the target-path record is empty after trimming (or missing), the forwarder
  prints and logs that the target is missing and never calls \<open>chainload_nro\<close>: its
  trace is the banner, the error, the prompt and the input loop, and on a card that takes
  the log the line \<open>ERROR: nextNroPath missing\<close> is appended to the log file.
\<close>

theorem empty_target_reported_without_transfer:
  assumes "read_text_file s NRO_FILE 512 = []"
  shows "fst (forwarder_main s) =
           [Print (''Switch ROM Packer Forwarder'' @ [LF, LF]),
            Print (''Error: romfs:/nextNroPath missing'' @ [LF]),
            Print (LF # ''Press + to exit.'' @ [LF]), WaitPlus] \<and>
         (\<forall>nroPath argvLine. Chainload nroPath argvLine \<notin> set (fst (forwarder_main s))) \<and>
         (log_ready s \<longrightarrow>
            content (snd (forwarder_main s)) (resolve LOG_PATH) =
              content s (resolve LOG_PATH) @
              take (max_file s - length (content s (resolve LOG_PATH)))
                (''SRP forwarder start'' @ [LF] @ ''nextNroPath=(missing)'' @ [LF] @
                 ''nextArgv='' @ (if read_text_file s ARG_FILE 768 \<noteq> []
                                  then read_text_file s ARG_FILE 768 else ''(missing)'') @ [LF] @
                 ''ERROR: nextNroPath missing'' @ [LF]))"
proof -
  note m = forwarder_main_missing[OF assms]
  have "log_ready s \<Longrightarrow> snd (forwarder_main s) =
      log_appended s (''SRP forwarder start'' @ [LF] @ ''nextNroPath=(missing)'' @ [LF] @
                 ''nextArgv='' @ (if read_text_file s ARG_FILE 768 \<noteq> []
                                  then read_text_file s ARG_FILE 768 else ''(missing)'') @ [LF] @
                 ''ERROR: nextNroPath missing'' @ [LF])"
    by (simp add: m log_msg_ready log_printf_ready log_ready_appended log_appended_twice)
  then show ?thesis
    by (auto simp: m content_log_appended)
qed


text \<open>A card whose target-path record holds only white space.\<close>

definition fwd_blank :: world where
  "fwd_blank =
     \<lparr>dirs = {},
      files = [[''romfs:'', ''nextNroPath''] \<mapsto> [CHR '' '', TAB, CR, LF],
               [''romfs:'', ''nextArgv''] \<mapsto> ''-L core.so game.sfc'' @ [LF]],
      readonly = False, max_file = 4096, open_streams = 0, romfs_rc = 0\<rparr>"

theorem empty_target_reported_without_transfer_witness:
  "read_text_file fwd_blank NRO_FILE 512 = [] \<and>
   fst (forwarder_main fwd_blank) =
     [Print (''Switch ROM Packer Forwarder'' @ [LF, LF]),
      Print (''Error: romfs:/nextNroPath missing'' @ [LF]),
      Print (LF # ''Press + to exit.'' @ [LF]), WaitPlus] \<and>
   log_ready fwd_blank \<and>
   content (snd (forwarder_main fwd_blank)) (resolve LOG_PATH) =
     ''SRP forwarder start'' @ [LF] @ ''nextNroPath=(missing)'' @ [LF] @
     ''nextArgv=-L core.so game.sfc'' @ [LF] @ ''ERROR: nextNroPath missing'' @ [LF]"
proof -
  have e: "\<not> ends_slash NRO_FILE" "\<not> ends_slash ARG_FILE"
    by (simp_all add: ends_slash_def NRO_FILE_def ARG_FILE_def SLASH_def)
  have h: "read_text_file fwd_blank NRO_FILE 512 = []"
    by (simp add: read_text_file_content e resolve_NRO_FILE content_def fwd_blank_def is_ws_def
        cstr_def)
  have a: "read_text_file fwd_blank ARG_FILE 768 = ''-L core.so game.sfc''"
    by (simp add: read_text_file_content e resolve_ARG_FILE content_def fwd_blank_def is_ws_def
        cstr_def LF_def CR_def TAB_def NUL_def)
  have r: "log_ready fwd_blank"
    by (simp add: log_ready_def fwd_blank_def)
  have c: "content fwd_blank (resolve LOG_PATH) = []" "max_file fwd_blank = 4096"
    by (simp_all add: resolve_LOG_PATH content_def fwd_blank_def)
  show ?thesis
    using empty_target_reported_without_transfer[OF h] h r
    by (simp add: a c)
qed

text \<open>
  Claim C7, as amended. \<open>chainload_nro\<close> is a placeholder that looks at neither
  argument: with a non-empty target path the handoff fails with the fixed result
  \<open>MAKERESULT(346, 1) = 0x35a\<close>, whether or not an executable stands at the path. The
  forwarder prints and logs that failure and goes on to the prompt and the input loop.
\<close>

theorem chainload_fails_with_placeholder_code:
  assumes "read_text_file s NRO_FILE 512 \<noteq> []"
  shows "chainload_nro (read_text_file s NRO_FILE 512) (read_text_file s ARG_FILE 768) = 0x35A \<and>
         R_FAILED (chainload_nro (read_text_file s NRO_FILE 512) (read_text_file s ARG_FILE 768)) \<and>
         fst (forwarder_main s) =
           [Print (''Switch ROM Packer Forwarder'' @ [LF, LF]),
            Print (''Target NRO:'' @ [LF] @ read_text_file s NRO_FILE 512 @ [LF, LF]),
            Chainload (read_text_file s NRO_FILE 512) (read_text_file s ARG_FILE 768),
            Print (''Launch not implemented yet (rc=0x35a)'' @ [LF]),
            Print (LF # ''Press + to exit.'' @ [LF]), WaitPlus] \<and>
         (log_ready s \<longrightarrow>
            content (snd (forwarder_main s)) (resolve LOG_PATH) =
              content s (resolve LOG_PATH) @
              take (max_file s - length (content s (resolve LOG_PATH)))
                (''SRP forwarder start'' @ [LF] @
                 ''nextNroPath='' @ read_text_file s NRO_FILE 512 @ [LF] @
                 ''nextArgv='' @ (if read_text_file s ARG_FILE 768 \<noteq> []
                                  then read_text_file s ARG_FILE 768 else ''(missing)'') @ [LF] @
                 ''chainload_nro not implemented (rc=0x35a)'' @ [LF]))"
proof -
  note m = forwarder_main_target[OF assms]
  have rc: "chainload_nro (read_text_file s NRO_FILE 512) (read_text_file s ARG_FILE 768) = 0x35A"
    by (simp add: chainload_nro_def MAKERESULT_def)
  have "log_ready s \<Longrightarrow> snd (forwarder_main s) =
      log_appended s (''SRP forwarder start'' @ [LF] @
                 ''nextNroPath='' @ read_text_file s NRO_FILE 512 @ [LF] @
                 ''nextArgv='' @ (if read_text_file s ARG_FILE 768 \<noteq> []
                                  then read_text_file s ARG_FILE 768 else ''(missing)'') @ [LF] @
                 ''chainload_nro not implemented (rc=0x35a)'' @ [LF])"
    by (simp add: m log_msg_ready log_printf_ready log_ready_appended log_appended_twice)
  then show ?thesis
    by (auto simp: m rc R_FAILED_def content_log_appended)
qed

text \<open>
  Two cards with the same records; on the second an executable stands at the target path.
\<close>

definition fwd_absent :: world where
  "fwd_absent =
     \<lparr>dirs = {},
      files = [[''romfs:'', ''nextNroPath''] \<mapsto> ''sdmc:/switch/retroarch/retroarch.nro'' @ [LF],
               [''romfs:'', ''nextArgv''] \<mapsto> ''-L core.so game.sfc'' @ [LF]],
      readonly = False, max_file = 4096, open_streams = 0, romfs_rc = 0\<rparr>"

definition fwd_present :: world where
  "fwd_present =
     fwd_absent\<lparr>dirs := {[''switch''], [''switch'', ''retroarch'']},
       files := (files fwd_absent)([''switch'', ''retroarch'', ''retroarch.nro''] \<mapsto> ''NRO0'')\<rparr>"

lemma fwd_absent_records:
  "read_text_file fwd_absent NRO_FILE 512 = ''sdmc:/switch/retroarch/retroarch.nro''"
  "read_text_file fwd_absent ARG_FILE 768 = ''-L core.so game.sfc''"
  "read_text_file fwd_present NRO_FILE 512 = ''sdmc:/switch/retroarch/retroarch.nro''"
  "read_text_file fwd_present ARG_FILE 768 = ''-L core.so game.sfc''"
  by (simp_all add: read_text_file_content ends_slash_def NRO_FILE_def ARG_FILE_def SLASH_def
      resolve_def content_def fwd_absent_def fwd_present_def is_ws_def cstr_def LF_def CR_def
      TAB_def NUL_def)

theorem chainload_fails_with_placeholder_code_witness:
  "read_text_file fwd_absent NRO_FILE 512 \<noteq> [] \<and>
   chainload_nro ''sdmc:/switch/retroarch/retroarch.nro'' ''-L core.so game.sfc'' = 0x35A \<and>
   fst (forwarder_main fwd_absent) =
     [Print (''Switch ROM Packer Forwarder'' @ [LF, LF]),
      Print (''Target NRO:'' @ [LF] @ ''sdmc:/switch/retroarch/retroarch.nro'' @ [LF, LF]),
      Chainload ''sdmc:/switch/retroarch/retroarch.nro'' ''-L core.so game.sfc'',
      Print (''Launch not implemented yet (rc=0x35a)'' @ [LF]),
      Print (LF # ''Press + to exit.'' @ [LF]), WaitPlus] \<and>
   log_ready fwd_absent \<and>
   content (snd (forwarder_main fwd_absent)) (resolve LOG_PATH) =
     ''SRP forwarder start'' @ [LF] @
     ''nextNroPath=sdmc:/switch/retroarch/retroarch.nro'' @ [LF] @
     ''nextArgv=-L core.so game.sfc'' @ [LF] @
     ''chainload_nro not implemented (rc=0x35a)'' @ [LF]"
proof -
  have h: "read_text_file fwd_absent NRO_FILE 512 \<noteq> []"
    by (simp add: fwd_absent_records)
  have r: "log_ready fwd_absent"
    by (simp add: log_ready_def fwd_absent_def)
  have c: "content fwd_absent (resolve LOG_PATH) = []" "max_file fwd_absent = 4096"
    by (simp_all add: resolve_LOG_PATH content_def fwd_absent_def)
  show ?thesis
    using chainload_fails_with_placeholder_code[OF h] h r
    by (simp add: fwd_absent_records c)
qed

text \<open>
  Claim C7 as stated fails: no error kind tells a missing target from a present one. With
  the executable absent and with it present the forwarder's trace is the same, and the code
  it reports is not the not-found code that \<open>copyFile\<close> uses for a missing file.
\<close>

theorem chainload_target_not_found_counterexample:
  "files fwd_absent (resolve ''sdmc:/switch/retroarch/retroarch.nro'') = None \<and>
   files fwd_present (resolve ''sdmc:/switch/retroarch/retroarch.nro'') = Some ''NRO0'' \<and>
   fst (forwarder_main fwd_absent) = fst (forwarder_main fwd_present) \<and>
   Print (''Launch not implemented yet (rc=0x35a)'' @ [LF]) \<in> set (fst (forwarder_main fwd_absent)) \<and>
   chainload_nro ''sdmc:/switch/retroarch/retroarch.nro'' ''-L core.so game.sfc''
     \<noteq> MAKERESULT Module_Libnx LibnxError_NotFound"
proof -
  have p: "resolve ''sdmc:/switch/retroarch/retroarch.nro'' = [''switch'', ''retroarch'', ''retroarch.nro'']"
    by (simp add: resolve_def SLASH_def)
  have a: "read_text_file fwd_absent NRO_FILE 512 \<noteq> []"
    and b: "read_text_file fwd_present NRO_FILE 512 \<noteq> []"
    by (simp_all add: fwd_absent_records)
  let ?trace = "[Print (''Switch ROM Packer Forwarder'' @ [LF, LF]),
      Print (''Target NRO:'' @ [LF] @ ''sdmc:/switch/retroarch/retroarch.nro'' @ [LF, LF]),
      Chainload ''sdmc:/switch/retroarch/retroarch.nro'' ''-L core.so game.sfc'',
      Print (''Launch not implemented yet (rc=0x35a)'' @ [LF]),
      Print (LF # ''Press + to exit.'' @ [LF]), WaitPlus]"
  have ta: "fst (forwarder_main fwd_absent) = ?trace"
    by (simp add: forwarder_main_target[OF a] fwd_absent_records)
  have tb: "fst (forwarder_main fwd_present) = ?trace"
    by (simp add: forwarder_main_target[OF b] fwd_absent_records)
  have f1: "files fwd_absent [''switch'', ''retroarch'', ''retroarch.nro''] = None"
    by (simp add: fwd_absent_def)
  have f2: "files fwd_present [''switch'', ''retroarch'', ''retroarch.nro''] = Some ''NRO0''"
    by (simp add: fwd_present_def)
  have ne: "chainload_nro ''sdmc:/switch/retroarch/retroarch.nro'' ''-L core.so game.sfc''
     \<noteq> MAKERESULT Module_Libnx LibnxError_NotFound"
    by (simp add: chainload_nro_def MAKERESULT_def Module_Libnx_def LibnxError_NotFound_def)
  show ?thesis
    using f1 f2 ne by (simp add: p ta tb)
qed



section \<open>The manifest stub: \<open>filelist.txt\<close> and the copy of every entry\<close>

definition OUTPUT_BASE :: string where
  "OUTPUT_BASE = ''/roms/''"

definition FILELIST :: string where
  "FILELIST = ''filelist.txt''"

text \<open>
  The loop of \<open>mkpath\<close>. The pointer \<open>p\<close> walks over \<open>tmp\<close> from its second
  character: \<open>pre\<close> is the part of \<open>tmp\<close> before \<open>p\<close> and the second argument is
  the part from \<open>p\<close> on. At a slash the loop writes NUL over it, so that \<open>tmp\<close> reads
  as \<open>pre\<close>, calls \<open>mkdir(tmp)\<close> without looking at the result, and puts the slash
  back.
\<close>

fun mkpath_loop :: "string \<Rightarrow> string \<Rightarrow> world \<Rightarrow> world" where
  "mkpath_loop pre [] s = s"
| "mkpath_loop pre (c # rest) s =
     mkpath_loop (pre @ [c]) rest (if c = SLASH then snd (mkdir s pre) else s)"

text \<open>
  \<open>mkpath\<close> works on the first 1023 bytes of the path. Of the last \<open>mkdir\<close> only an
  error other than \<open>EEXIST\<close> makes the result \<open>-1\<close>.
\<close>

definition mkpath :: "world \<Rightarrow> string \<Rightarrow> int \<times> world" where
  "mkpath s path =
     (case take 1023 path of
        [] \<Rightarrow> (0, s)
      | c # rest \<Rightarrow>
          (case mkdir (mkpath_loop [c] rest s) (c # rest) of
             (None, s') \<Rightarrow> (0, s')
           | (Some e, s') \<Rightarrow> if e \<noteq> EEXIST then (- 1, s') else (0, s')))"

text \<open>\<open>strrchr\<close>: the index of the last occurrence of a character.\<close>

definition strrchr :: "string \<Rightarrow> char \<Rightarrow> nat option" where
  "strrchr str c =
     (if c \<in> set str then Some (length str - Suc (length (takeWhile (\<lambda>x. x \<noteq> c) (rev str))))
      else None)"

text \<open>
  Lines 36 to 40 of \<open>copyFile\<close>: the destination path is copied into a buffer of 1024
  bytes, cut at its last slash and passed to \<open>mkpath\<close>, whose result is ignored.
\<close>

definition ensure_dir :: "world \<Rightarrow> string \<Rightarrow> world" where
  "ensure_dir s dstPath =
     (let dir = take 1023 dstPath in
      case strrchr dir SLASH of
        None \<Rightarrow> s
      | Some lastSlash \<Rightarrow> snd (mkpath s (take lastSlash dir)))"

function copy_loop :: "world \<Rightarrow> stream \<Rightarrow> stream \<Rightarrow> Result \<times> world" where
  "copy_loop s src dst =
     (case fread s src 8192 of
        (buf, src') \<Rightarrow>
          if length buf > 0 then
            (case fwrite s dst buf of
               (w, dst', s') \<Rightarrow>
                 if w \<noteq> length buf
                 then (MAKERESULT Module_Libnx LibnxError_IoError, fclose (fclose s'))
                 else copy_loop s' src' dst')
          else (0, fclose (fclose s)))"
  by pat_completeness auto
termination
proof (relation "measure (\<lambda>(s, src, dst). max (length (content s (fst src))) (max_file s) - snd src)",
    goal_cases)
  case 1
  show ?case by simp
next
  case (2 s src dst buf src' w rest dst' s')
  have fw: "fwrite s dst buf = (w, dst', s')"
    using 2(3,4) by simp
  have rd: "buf = take 8192 (drop (snd src) (content s (fst src)))"
    "src' = (fst src, snd src + length buf)"
    using 2(1) by (auto simp: fread_def Let_def)
  have pos: "snd src + length buf \<le> length (content s (fst src))"
    using rd(1) 2(2) by auto
  have n: "0 < length buf"
    using 2(2) .
  have le: "max (length (content s' (fst src))) (max_file s')
              \<le> max (length (content s (fst src))) (max_file s)"
    by (rule fwrite_content_bound[OF fw])
  have "max (length (content s' (fst src))) (max_file s') - (snd src + length buf)
          < max (length (content s (fst src))) (max_file s) - snd src"
    using n le pos by arith
  then show ?case
    by (simp add: rd(2))
qed

declare copy_loop.simps [simp del]

definition copyFile :: "world \<Rightarrow> string \<Rightarrow> string \<Rightarrow> Result \<times> world" where
  "copyFile s srcPath dstPath =
     (case fopen_rb s srcPath of
        None \<Rightarrow> (MAKERESULT Module_Libnx LibnxError_NotFound, s)
      | Some (src, s1) \<Rightarrow>
          (let s2 = ensure_dir s1 dstPath in
           case fopen_wb s2 dstPath of
             None \<Rightarrow> (MAKERESULT Module_Libnx LibnxError_IoError, fclose s2)
           | Some (dst, s3) \<Rightarrow> copy_loop s3 src dst))"

text \<open>
  \<open>fgets(line, size, f)\<close> on the unread rest of a text file: at most \<open>size - 1\<close>
  bytes, ending after the first line feed; \<open>None\<close> at the end of the file. The line the
  program sees is a C string.
\<close>

definition fgets :: "nat \<Rightarrow> string \<Rightarrow> (string \<times> string) option" where
  "fgets sz rest =
     (if rest = [] then None
      else (let avail = take (sz - 1) rest;
                chunk = take (Suc (length (takeWhile (\<lambda>c. c \<noteq> LF) avail))) avail
            in Some (cstr chunk, drop (length chunk) rest)))"

text \<open>The loop \<open>while (len && (line[len-1] == '\n' || line[len-1] == '\r')) line[--len] = 0\<close>.\<close>

fun crlf_count :: "string \<Rightarrow> nat \<Rightarrow> nat" where
  "crlf_count line 0 = 0"
| "crlf_count line (Suc n) =
     (if line ! n = LF \<or> line ! n = CR then crlf_count line n else Suc n)"

definition trim_crlf :: "string \<Rightarrow> string" where
  "trim_crlf line = take (crlf_count line (length line)) line"

text \<open>
  \<open>sscanf(line, "%159[^\t]\t%575[^\n]", platform, filename)\<close>. A conversion
  \<open>%N[^c]\<close> takes the longest run of at most \<open>N\<close> characters other than \<open>c\<close> and fails
  on an empty run; the white-space directive \<open>\t\<close> between the two skips any run of
  white space, also an empty one. The result is the number of conversions stored.
\<close>

definition scan_set :: "nat \<Rightarrow> (char \<Rightarrow> bool) \<Rightarrow> string \<Rightarrow> (string \<times> string) option" where
  "scan_set width member input =
     (let run = takeWhile member (take width input) in
      if run = [] then None else Some (run, drop (length run) input))"

definition isspace :: "char \<Rightarrow> bool" where
  "isspace c = (c = CHR '' '' \<or> c = TAB \<or> c = LF \<or> c = CHR 0x0B \<or> c = CHR 0x0C \<or> c = CR)"

definition sscanf_manifest :: "string \<Rightarrow> int \<times> string \<times> string" where
  "sscanf_manifest line =
     (if line = [] then (- 1, [], [])
      else (case scan_set 159 (\<lambda>c. c \<noteq> TAB) line of
              None \<Rightarrow> (0, [], [])
            | Some (platform, rest) \<Rightarrow>
                (case scan_set 575 (\<lambda>c. c \<noteq> LF) (dropWhile isspace rest) of
                   None \<Rightarrow> (1, platform, [])
                 | Some (filename, rest') \<Rightarrow> (2, platform, filename))))"

text \<open>\<open>snprintf(buf, size, ...)\<close> keeps the first \<open>size - 1\<close> bytes of the text.\<close>

definition snprintf :: "nat \<Rightarrow> string \<Rightarrow> string" where
  "snprintf sz formatted = take (sz - 1) formatted"

lemma fgets_shorter: "fgets sz rest = Some (line, rest') \<Longrightarrow> 1 < sz \<Longrightarrow> length rest' < length rest"
  by (cases rest) (auto simp: fgets_def Let_def)

function main_loop :: "world \<Rightarrow> string \<Rightarrow> event list \<times> world" where
  "main_loop s rest =
     (case fgets 768 rest of
        None \<Rightarrow> ([], s)
      | Some (raw, rest') \<Rightarrow>
          (let line = trim_crlf raw in
           if line = [] then main_loop s rest'
           else (case sscanf_manifest line of
                   (n, platform, filename) \<Rightarrow>
                     if n \<noteq> 2 then
                       (case main_loop s rest' of
                          (out, s') \<Rightarrow> (Print (''Bad manifest line: '' @ line @ [LF]) # out, s'))
                     else
                       (let srcPath = snprintf 700 (''romfs:/'' @ filename);
                            dstPath = snprintf 1100 (OUTPUT_BASE @ platform @ ''/'' @ filename)
                        in case copyFile s srcPath dstPath of
                             (rc, s1) \<Rightarrow>
                               (case main_loop s1 rest' of
                                  (out, s2) \<Rightarrow>
                                    (Print (''Copying '' @ srcPath @ '' -> '' @ dstPath @ [LF]) #
                                     Print (if R_FAILED rc
                                            then ''  Copy failed: 0x'' @ hex (unat rc) @ [LF]
                                            else ''  Done.'' @ [LF]) # out, s2))))))"
  by pat_completeness auto
termination
  by (relation "measure (\<lambda>(s, rest). length rest)") (auto simp: fgets_shorter)

declare main_loop.simps [simp del]

definition manifest_main :: "world \<Rightarrow> event list \<times> world" where
  "manifest_main s =
     (let rc = romfs_rc s;
          press = [Print (''Press PLUS to exit.'' @ [LF]), WaitPlus]
      in if R_FAILED rc then (Print (''romfsInit failed: 0x'' @ hex (unat rc) @ [LF]) # press, s)
         else (let listPath = snprintf 128 (''romfs:/'' @ FILELIST) in
               case fopen_rb s listPath of
                 None \<Rightarrow> (Print (''Missing '' @ FILELIST @ '' in RomFS.'' @ [LF]) # press, s)
               | Some (list, s1) \<Rightarrow>
                   (case main_loop s1 (content s1 (fst list)) of
                      (out, s2) \<Rightarrow> (out @ press, fclose s2))))"

lemma take_crlf_count:
  "n \<le> length line \<Longrightarrow>
   take (crlf_count line n) line = rev (dropWhile (\<lambda>c. c = LF \<or> c = CR) (rev (take n line)))"
proof (induction n)
  case 0
  then show ?case by simp
next
  case (Suc n)
  then have t: "take (Suc n) line = take n line @ [line ! n]"
    by (simp add: take_Suc_conv_app_nth)
  show ?case using Suc by (auto simp: t)
qed

lemma trim_crlf_eq: "trim_crlf line = rev (dropWhile (\<lambda>c. c = LF \<or> c = CR) (rev line))"
  using take_crlf_count[of "length line" line] by (simp add: trim_crlf_def)

lemma scan_set_run:
  "scan_set w m input = Some (run, rest) \<Longrightarrow>
   run \<noteq> [] \<and> length run \<le> w \<and> (\<forall>c \<in> set run. m c) \<and> input = run @ rest"
proof -
  assume a: "scan_set w m input = Some (run, rest)"
  then have r: "run = takeWhile m (take w input)" and n: "run \<noteq> []" and d: "rest = drop (length run) input"
    by (auto simp: scan_set_def Let_def split: if_splits)
  have "length run \<le> length (take w input)"
    unfolding r by (rule length_takeWhile_le)
  then have l: "length run \<le> w" by simp
  have "run = take (length run) (take w input)"
    unfolding r by (metis takeWhile_eq_take)
  then have "run = take (length run) input"
    using l by (simp add: min_def)
  then have "input = run @ rest"
    unfolding d by (metis append_take_drop_id)
  moreover have "\<forall>c \<in> set run. m c"
    unfolding r by (auto dest: set_takeWhileD)
  ultimately show ?thesis using n l by simp
qed

lemma sscanf_manifest_fields:
  assumes "sscanf_manifest line = (2, platform, filename)"
  shows "platform \<noteq> [] \<and> length platform \<le> 159 \<and> TAB \<notin> set platform \<and>
         filename \<noteq> [] \<and> length filename \<le> 575 \<and> LF \<notin> set filename"
proof -
  from assms obtain r1 where p: "scan_set 159 (\<lambda>c. c \<noteq> TAB) line = Some (platform, r1)"
    by (auto simp: sscanf_manifest_def split: if_splits option.splits)
  with assms obtain r2 where f: "scan_set 575 (\<lambda>c. c \<noteq> LF) (dropWhile isspace r1) = Some (filename, r2)"
    by (auto simp: sscanf_manifest_def split: if_splits option.splits)
  show ?thesis
    using scan_set_run[OF p] scan_set_run[OF f] by auto
qed

text \<open>What the loop does with one line, by the outcome of \<open>sscanf\<close>.\<close>

lemma main_loop_eof: "main_loop s [] = ([], s)"
  by (subst main_loop.simps) (simp add: fgets_def)

lemma main_loop_blank:
  assumes "fgets 768 rest = Some (raw, rest')" and "trim_crlf raw = []"
  shows "main_loop s rest = main_loop s rest'"
  using assms by (subst main_loop.simps) simp

lemma main_loop_bad:
  assumes "fgets 768 rest = Some (raw, rest')" and "trim_crlf raw \<noteq> []"
    and "fst (sscanf_manifest (trim_crlf raw)) \<noteq> 2"
  shows "main_loop s rest =
           (Print (''Bad manifest line: '' @ trim_crlf raw @ [LF]) # fst (main_loop s rest'),
            snd (main_loop s rest'))"
  using assms
  by (subst main_loop.simps) (simp add: Let_def case_prod_beta)

lemma main_loop_entry:
  assumes "fgets 768 rest = Some (raw, rest')" and "trim_crlf raw \<noteq> []"
    and "sscanf_manifest (trim_crlf raw) = (2, platform, filename)"
  shows "main_loop s rest =
     (Print (''Copying romfs:/'' @ filename @ '' -> /roms/'' @ platform @ ''/'' @ filename @ [LF]) #
      Print (if R_FAILED (fst (copyFile s (''romfs:/'' @ filename) (''/roms/'' @ platform @ ''/'' @ filename)))
             then ''  Copy failed: 0x'' @
                  hex (unat (fst (copyFile s (''romfs:/'' @ filename) (''/roms/'' @ platform @ ''/'' @ filename)))) @ [LF]
             else ''  Done.'' @ [LF]) #
      fst (main_loop (snd (copyFile s (''romfs:/'' @ filename) (''/roms/'' @ platform @ ''/'' @ filename))) rest'),
      snd (main_loop (snd (copyFile s (''romfs:/'' @ filename) (''/roms/'' @ platform @ ''/'' @ filename))) rest'))"
proof -
  note b = sscanf_manifest_fields[OF assms(3)]
  define src where "src = ''romfs:/'' @ filename"
  define dst where "dst = ''/roms/'' @ platform @ ''/'' @ filename"
  have "length src \<le> 699" "length dst \<le> 1099"
    using b by (simp_all add: src_def dst_def)
  then have "take 699 src = src" "take 1099 dst = dst"
    by simp_all
  then have s: "snprintf 700 (''romfs:/'' @ filename) = ''romfs:/'' @ filename"
    and d: "snprintf 1100 (OUTPUT_BASE @ platform @ ''/'' @ filename) = ''/roms/'' @ platform @ ''/'' @ filename"
    by (simp_all add: snprintf_def OUTPUT_BASE_def src_def dst_def del: take_append)
  show ?thesis
    using assms
    by (subst main_loop.simps) (simp add: Let_def s[simplified] d[simplified] case_prod_beta)
qed

lemma resolve_listPath: "resolve (snprintf 128 (''romfs:/'' @ FILELIST)) = [''romfs:'', ''filelist.txt'']"
  by (simp add: snprintf_def FILELIST_def resolve_def SLASH_def)

lemma ends_slash_listPath: "\<not> ends_slash (snprintf 128 (''romfs:/'' @ FILELIST))"
  by (simp add: snprintf_def FILELIST_def ends_slash_def SLASH_def)

text \<open>
  Claim C4. When \<open>filelist.txt\<close> is absent from the archive, the stub prints the one
  line \<open>Missing filelist.txt in RomFS.\<close> (or, when the archive itself did not mount, the
  one line about \<open>romfsInit\<close>), no entry is attempted, and the world, with every file
  and directory of the card, is as it was.
\<close>

theorem missing_manifest_touches_nothing:
  assumes "files s [''romfs:'', ''filelist.txt''] = None"
  shows "snd (manifest_main s) = s \<and>
         fst (manifest_main s) =
           (if R_FAILED (romfs_rc s)
            then [Print (''romfsInit failed: 0x'' @ hex (unat (romfs_rc s)) @ [LF]),
                  Print (''Press PLUS to exit.'' @ [LF]), WaitPlus]
            else [Print (''Missing filelist.txt in RomFS.'' @ [LF]),
                  Print (''Press PLUS to exit.'' @ [LF]), WaitPlus])"
proof -
  have "fopen_rb s (snprintf 128 (''romfs:/'' @ FILELIST)) = None"
    using assms by (simp add: fopen_rb_def resolve_listPath[simplified] Let_def)
  then show ?thesis
    by (simp add: manifest_main_def Let_def FILELIST_def)
qed

definition empty_card :: world where
  "empty_card =
     \<lparr>dirs = {}, files = Map.empty, readonly = False, max_file = 4096, open_streams = 0,
      romfs_rc = 0\<rparr>"

theorem missing_manifest_touches_nothing_witness:
  "files empty_card [''romfs:'', ''filelist.txt''] = None \<and>
   snd (manifest_main empty_card) = empty_card \<and>
   fst (manifest_main empty_card) =
     [Print (''Missing filelist.txt in RomFS.'' @ [LF]),
      Print (''Press PLUS to exit.'' @ [LF]), WaitPlus]"
proof -
  have h: "files empty_card [''romfs:'', ''filelist.txt''] = None"
    by (simp add: empty_card_def)
  have r: "\<not> R_FAILED (romfs_rc empty_card)"
    by (simp add: R_FAILED_def empty_card_def)
  show ?thesis
    using missing_manifest_touches_nothing[OF h] h r by simp
qed

lemma fgets_line:
  assumes "LF \<notin> set line" and "NUL \<notin> set line" and "length line < 767"
  shows "fgets 768 (line @ LF # rest) = Some (line @ [LF], rest)"
proof -
  have 1: "take (768 - 1) (line @ LF # rest) = line @ LF # take (766 - length line) rest"
    using assms(3) by (simp add: take_Cons')
  have 2: "takeWhile (\<lambda>c. c \<noteq> LF) (line @ LF # take (766 - length line) rest) = line"
    using assms(1) by (auto simp: takeWhile_tail)
  have 3: "take (Suc (length line)) (line @ LF # take (766 - length line) rest) = line @ [LF]"
    by simp
  have 4: "drop (length (line @ [LF])) (line @ LF # rest) = rest"
    by simp
  have "NUL \<notin> set (line @ [LF])"
    using assms(2) by (simp add: NUL_def LF_def)
  then have c: "cstr (line @ [LF]) = line @ [LF]"
    by (rule cstr_no_NUL)
  show ?thesis
    unfolding fgets_def Let_def 1 2 3 c 4 by simp
qed

lemma trim_crlf_line:
  assumes "line = [] \<or> (last line \<noteq> LF \<and> last line \<noteq> CR)"
  shows "trim_crlf (line @ [LF]) = line"
  using assms by (cases line rule: rev_cases) (auto simp: trim_crlf_eq)

text \<open>
  Claim C1 fails on a line that has no tab at all but more than 159 characters: the first
  conversion stops at its width, the white-space directive matches the empty string, and
  the second conversion takes the rest. The line of 160 letters \<open>a\<close> is taken as the
  platform of 159 letters and the file name \<open>a\<close>, and the copy is attempted.
\<close>

theorem untabbed_long_line_is_parsed:
  "sscanf_manifest (replicate 160 (CHR ''a'')) = (2, replicate 159 (CHR ''a''), ''a'') \<and>
   fst (main_loop empty_card (replicate 160 (CHR ''a'') @ [LF])) =
     [Print (''Copying romfs:/a -> /roms/'' @ replicate 159 (CHR ''a'') @ ''/a'' @ [LF]),
      Print (''  Copy failed: 0x1359'' @ [LF])]"
proof -
  let ?line = "replicate 160 (CHR ''a'')"
  have "scan_set 159 (\<lambda>c. c \<noteq> TAB) ?line = Some (replicate 159 (CHR ''a''), ''a'')"
    by (simp add: scan_set_def Let_def TAB_def takeWhile_replicate)
  moreover have "scan_set 575 (\<lambda>c. c \<noteq> LF) (dropWhile isspace ''a'') = Some (''a'', [])"
    by (simp add: scan_set_def Let_def isspace_def LF_def TAB_def CR_def)
  ultimately have p: "sscanf_manifest ?line = (2, replicate 159 (CHR ''a''), ''a'')"
    by (simp add: sscanf_manifest_def)
  have g: "fgets 768 (?line @ LF # []) = Some (?line @ [LF], [])"
    by (rule fgets_line) (simp_all add: LF_def NUL_def)
  have t: "trim_crlf (?line @ [LF]) = ?line"
    by (rule trim_crlf_line) (simp add: LF_def CR_def)
  have n: "?line \<noteq> []"
    by simp
  have c: "copyFile empty_card (''romfs:/'' @ ''a'') (''/roms/'' @ replicate 159 (CHR ''a'') @ ''/'' @ ''a'')
             = (MAKERESULT Module_Libnx LibnxError_NotFound, empty_card)"
    by (simp add: copyFile_def fopen_rb_def Let_def empty_card_def)
  have h: "hex (unat (MAKERESULT Module_Libnx LibnxError_NotFound)) = ''1359''"
    by (simp add: MAKERESULT_def Module_Libnx_def LibnxError_NotFound_def hex.simps)
  have f: "R_FAILED (MAKERESULT Module_Libnx LibnxError_NotFound)"
    by (simp add: R_FAILED_def MAKERESULT_def Module_Libnx_def LibnxError_NotFound_def)
  have "main_loop empty_card (?line @ [LF]) =
          ([Print (''Copying romfs:/a -> /roms/'' @ replicate 159 (CHR ''a'') @ ''/a'' @ [LF]),
            Print (''  Copy failed: 0x1359'' @ [LF])], empty_card)"
    using main_loop_entry[of "?line @ [LF]" "?line @ [LF]" "[]" "replicate 159 (CHR ''a'')" "''a''" empty_card]
      g t n p
    by (simp add: c[simplified] h f main_loop_eof)
  then show ?thesis
    using p by simp
qed

subsection \<open>Paths and their components\<close>

lemma split_path_segment:
  assumes "SLASH \<notin> set seg" and "seg \<noteq> []"
  shows "split_path seg = [seg]"
proof (cases seg)
  case Nil
  with assms show ?thesis by simp
next
  case (Cons c cs)
  with assms have c: "c \<noteq> SLASH" and t: "takeWhile (\<lambda>x. x \<noteq> SLASH) cs = cs"
    and d: "dropWhile (\<lambda>x. x \<noteq> SLASH) cs = []"
    by auto
  show ?thesis
    unfolding Cons by (simp only: split_path.simps c t d if_False)
qed

lemma split_path_append_slash: "split_path (a @ SLASH # b) = split_path a @ split_path b"
proof (induction a rule: split_path.induct)
  case 1
  show ?case by simp
next
  case (2 c cs)
  show ?case
  proof (cases "c = SLASH")
    case True
    with 2(1) show ?thesis by simp
  next
    case False
    have t: "takeWhile (\<lambda>x. x \<noteq> SLASH) (cs @ SLASH # b) = takeWhile (\<lambda>x. x \<noteq> SLASH) cs"
      by (simp add: takeWhile_tail)
    have d: "dropWhile (\<lambda>x. x \<noteq> SLASH) (cs @ SLASH # b) = dropWhile (\<lambda>x. x \<noteq> SLASH) cs @ SLASH # b"
      by (simp add: dropWhile_append3)
    show ?thesis
      using False 2(2) by (simp add: t d)
  qed
qed

lemma split_path_snoc_slash: "split_path (pre @ [SLASH]) = split_path pre"
  using split_path_append_slash[of pre "[]"] by simp

text \<open>
  The components that are complete in a prefix \<open>pre\<close> of a path: all of them when
  \<open>pre\<close> ends in a slash, all but the last otherwise.
\<close>

definition ensured :: "string \<Rightarrow> path" where
  "ensured pre =
     (if pre = [] \<or> last pre = SLASH then split_path pre else butlast (split_path pre))"

lemma split_tail:
  "\<exists>y seg. pre = y @ seg \<and> SLASH \<notin> set seg \<and> (y = [] \<or> last y = SLASH)"
proof -
  let ?seg = "rev (takeWhile (\<lambda>x. x \<noteq> SLASH) (rev pre))"
  let ?y = "rev (dropWhile (\<lambda>x. x \<noteq> SLASH) (rev pre))"
  have "pre = ?y @ ?seg"
    by (metis rev_append rev_rev_ident takeWhile_dropWhile_id)
  moreover have "SLASH \<notin> set ?seg"
    by (auto dest: set_takeWhileD)
  moreover have "?y = [] \<or> last ?y = SLASH"
    by (metis (mono_tags, lifting) hd_dropWhile last_rev rev_is_Nil_conv)
  ultimately show ?thesis by blast
qed

lemma ensured_snoc_other:
  assumes "c \<noteq> SLASH"
  shows "ensured (pre @ [c]) = ensured pre"
proof -
  obtain y seg where p: "pre = y @ seg" and s: "SLASH \<notin> set seg" and y: "y = [] \<or> last y = SLASH"
    using split_tail by blast
  have s': "SLASH \<notin> set (seg @ [c])" "seg @ [c] \<noteq> []"
    using s assms by auto
  show ?thesis
  proof (cases "y = []")
    case True
    have "seg \<noteq> [] \<Longrightarrow> last seg \<noteq> SLASH"
      using s last_in_set by metis
    then show ?thesis
      using True split_path_segment[OF s'] split_path_segment[OF s] p s assms
      by (cases "seg = []") (auto simp: ensured_def)
  next
    case False
    with y obtain y' where y': "y = y' @ [SLASH]"
      by (metis append_butlast_last_id)
    have a: "split_path (pre @ [c]) = split_path y' @ [seg @ [c]]"
      using split_path_append_slash[of y' "seg @ [c]"] split_path_segment[OF s'] by (simp add: p y')
    have b: "split_path pre = split_path y' @ split_path seg"
      using split_path_append_slash[of y' seg] by (simp add: p y')
    show ?thesis
    proof (cases "seg = []")
      case True
      then show ?thesis using a b assms by (simp add: ensured_def p y')
    next
      case False
      then have "last seg \<in> set seg"
        by simp
      then have "last seg \<noteq> SLASH"
        using s by metis
      then have "last pre \<noteq> SLASH" "pre \<noteq> []"
        using p False by simp_all
      then show ?thesis
        using a b assms split_path_segment[OF s False] by (simp add: ensured_def)
    qed
  qed
qed

lemma ensured_snoc_slash: "ensured (pre @ [SLASH]) = split_path pre"
  by (simp add: ensured_def split_path_snoc_slash)

lemma split_path_ensured:
  "split_path pre = ensured pre \<or> (split_path pre \<noteq> [] \<and> butlast (split_path pre) = ensured pre)"
proof -
  obtain y seg where p: "pre = y @ seg" and s: "SLASH \<notin> set seg" and y: "y = [] \<or> last y = SLASH"
    using split_tail by blast
  show ?thesis
  proof (cases "pre = [] \<or> last pre = SLASH")
    case True
    then show ?thesis by (simp add: ensured_def)
  next
    case False
    then have n: "seg \<noteq> []" using p y by auto
    have "split_path pre \<noteq> []"
    proof (cases "y = []")
      case True
      then show ?thesis using split_path_segment[OF s n] p by simp
    next
      case False
      with y obtain y' where "y = y' @ [SLASH]"
        by (metis append_butlast_last_id)
      then show ?thesis
        using split_path_append_slash[of y' seg] split_path_segment[OF s n] p by simp
    qed
    then show ?thesis using False by (simp add: ensured_def)
  qed
qed

lemma resolve_roms: "resolve (''/roms'' @ y) = split_path (''/roms'' @ y)"
  by (simp add: resolve_def SLASH_def)

lemma split_path_roms: "split_path (''/roms/'' @ y) = ''roms'' # split_path y"
  by (simp add: SLASH_def)

lemma hd_split_path_roms:
  "\<exists>w rest. split_path (''/roms'' @ y) = (''roms'' @ w) # rest"
  by (simp add: SLASH_def)

lemma resolve_romfs: "resolve (''romfs:/'' @ y) = ''romfs:'' # split_path y"
  by (simp add: resolve_def SLASH_def)

lemma strrchr_Some:
  assumes "c \<in> set str"
  shows "\<exists>i. strrchr str c = Some i \<and> i < length str \<and> str = take i str @ c # drop (Suc i) str \<and>
             c \<notin> set (drop (Suc i) str)"
proof -
  let ?t = "takeWhile (\<lambda>x. x \<noteq> c) (rev str)"
  let ?d = "dropWhile (\<lambda>x. x \<noteq> c) (rev str)"
  have d: "?d \<noteq> []" using assms by simp
  then have hd: "hd ?d = c" by (metis (mono_tags, lifting) hd_dropWhile)
  then obtain d' where d': "?d = c # d'" using d by (cases ?d) auto
  have r: "rev str = ?t @ c # d'" using d' by (metis takeWhile_dropWhile_id)
  then have str: "str = rev d' @ c # rev ?t"
    by (metis rev_append rev.simps(2) rev_rev_ident append_assoc append_Cons append_Nil)
  have len: "length str = length d' + Suc (length ?t)"
    using arg_cong[OF str, of length] by simp
  let ?i = "length str - Suc (length ?t)"
  have i: "?i = length d'" using len by simp
  have "take ?i str = rev d'" "drop (Suc ?i) str = rev ?t"
    unfolding i by (subst str, simp)+
  moreover have "c \<notin> set (rev ?t)" by (auto dest: set_takeWhileD)
  ultimately show ?thesis
    using assms str i len by (auto simp: strrchr_def)
qed


subsection \<open>Directories: what \<open>mkdir\<close> and \<open>mkpath\<close> leave behind\<close>

text \<open>
  In a well-formed tree no name is both a directory and a file, and the parent of a
  directory is a directory.
\<close>

definition well_formed :: "world \<Rightarrow> bool" where
  "well_formed s = (\<forall>d \<in> dirs s. files s d = None \<and> is_dir s (butlast d))"

definition creatable :: "world \<Rightarrow> path \<Rightarrow> bool" where
  "creatable s p =
     (p \<noteq> [] \<and> p \<notin> dirs s \<and> files s p = None \<and> is_dir s (butlast p) \<and> writable s p)"

definition blocked :: "world \<Rightarrow> path \<Rightarrow> bool" where
  "blocked s p = (\<exists>j < length p. is_dir s (take j p) \<and> files s (take (Suc j) p) \<noteq> None)"

definition reached :: "world \<Rightarrow> path \<Rightarrow> bool" where
  "reached s p = (is_dir s p \<or> blocked s p)"

definition saturated :: "world \<Rightarrow> path \<Rightarrow> bool" where
  "saturated s p = (\<forall>k. \<not> creatable s (take k p))"

definition grows :: "world \<Rightarrow> world \<Rightarrow> bool" where
  "grows s s' =
     (dirs s \<subseteq> dirs s' \<and> files s' = files s \<and> readonly s' = readonly s \<and>
      max_file s' = max_file s \<and> open_streams s' = open_streams s \<and> romfs_rc s' = romfs_rc s)"

lemma grows_refl: "grows s s"
  by (simp add: grows_def)

lemma grows_trans: "grows a b \<Longrightarrow> grows b c \<Longrightarrow> grows a c"
  by (auto simp: grows_def)

lemma mkdir_state:
  assumes "name \<noteq> []"
  shows "snd (mkdir s name) =
           (if creatable s (resolve name) then s\<lparr>dirs := insert (resolve name) (dirs s)\<rparr> else s)"
  using assms by (auto simp: mkdir_def Let_def creatable_def)

lemma mkdir_result:
  assumes "name \<noteq> []"
  shows "fst (mkdir s name) =
           (if creatable s (resolve name) then None
            else if resolve name = [] \<or> resolve name \<in> dirs s \<or> files s (resolve name) \<noteq> None
                 then Some EEXIST
                 else if is_dir s (butlast (resolve name)) then Some EROFS else Some ENOENT)"
  using assms by (auto simp: mkdir_def Let_def creatable_def)

lemma mkdir_grows: "grows s (snd (mkdir s name))"
  by (auto simp: mkdir_def Let_def grows_def)

lemma mkdir_well_formed:
  assumes "well_formed s"
  shows "well_formed (snd (mkdir s name))"
  using assms by (auto simp: mkdir_def Let_def well_formed_def is_dir_def)

lemma is_dir_grows: "grows s s' \<Longrightarrow> is_dir s p \<Longrightarrow> is_dir s' p"
  by (auto simp: grows_def is_dir_def split: if_splits)

lemma reached_grows: "grows s s' \<Longrightarrow> reached s p \<Longrightarrow> reached s' p"
  using is_dir_grows by (auto simp: reached_def blocked_def grows_def)

lemma is_dir_butlast: "well_formed s \<Longrightarrow> is_dir s p \<Longrightarrow> is_dir s (butlast p)"
  by (auto simp: well_formed_def is_dir_def split: if_splits)

lemma is_dir_take:
  assumes "well_formed s" and "is_dir s p"
  shows "is_dir s (take k p)"
proof -
  have "is_dir s ((butlast ^^ n) p)" for n
    by (induction n) (use assms is_dir_butlast in auto)
  then have "is_dir s (take (length p - (length p - k)) p)"
    by (simp add: butlast_power)
  then show ?thesis
    by (cases "k \<le> length p") simp_all
qed

lemma blocked_butlast:
  assumes "p \<noteq> []" and "blocked s (butlast p)"
  shows "blocked s p"
proof -
  from assms(2) obtain j where j: "j < length (butlast p)" "is_dir s (take j (butlast p))"
    "files s (take (Suc j) (butlast p)) \<noteq> None"
    by (auto simp: blocked_def)
  then have "take j (butlast p) = take j p" "take (Suc j) (butlast p) = take (Suc j) p" "j < length p"
    by (simp_all add: butlast_conv_take)
  with j show ?thesis
    by (auto simp: blocked_def)
qed

lemma blocked_file:
  assumes "p \<noteq> []" and "is_dir s (butlast p)" and "files s p \<noteq> None"
  shows "blocked s p"
proof -
  have "length p - 1 < length p" "take (length p - 1) p = butlast p" "take (Suc (length p - 1)) p = p"
    using assms(1) by (simp_all add: butlast_conv_take)
  then show ?thesis
    using assms unfolding blocked_def by metis
qed

lemma mkdir_reached:
  assumes "name \<noteq> []" and "writable s (resolve name)"
    and "reached s (resolve name) \<or> (resolve name \<noteq> [] \<and> reached s (butlast (resolve name)))"
  shows "reached (snd (mkdir s name)) (resolve name)"
proof (cases "creatable s (resolve name)")
  case True
  then show ?thesis
    by (simp add: mkdir_state[OF assms(1)] reached_def is_dir_def)
next
  case False
  show ?thesis
  proof (cases "reached s (resolve name)")
    case True
    then show ?thesis using False by (simp add: mkdir_state[OF assms(1)])
  next
    case nr: False
    with assms(3) have n: "resolve name \<noteq> []" and b: "reached s (butlast (resolve name))"
      by auto
    from nr have nd: "resolve name \<notin> dirs s"
      by (auto simp: reached_def is_dir_def split: if_splits)
    have "blocked s (resolve name)"
    proof (cases "is_dir s (butlast (resolve name))")
      case True
      with False n nd assms(2) have "files s (resolve name) \<noteq> None"
        by (auto simp: creatable_def)
      with True n show ?thesis by (simp add: blocked_file)
    next
      case False
      with b have "blocked s (butlast (resolve name))" by (simp add: reached_def)
      with n show ?thesis by (rule blocked_butlast)
    qed
    with nr show ?thesis by (simp add: reached_def)
  qed
qed


text \<open>The destinations of the stub are all below \<open>/roms\<close>.\<close>

definition under_roms :: "string \<Rightarrow> bool" where
  "under_roms name = (\<exists>y. name = ''/roms'' @ y)"

lemma under_roms_append: "under_roms pre \<Longrightarrow> under_roms (pre @ x)"
  by (auto simp: under_roms_def)

lemma under_roms_facts:
  assumes "under_roms name"
  shows "name \<noteq> []" and "resolve name = split_path name" and "\<not> on_romfs (split_path name)"
    and "split_path name \<noteq> []"
  using assms by (auto simp: under_roms_def resolve_def on_romfs_def SLASH_def)

lemma under_roms_writable: "under_roms name \<Longrightarrow> \<not> readonly s \<Longrightarrow> writable s (resolve name)"
  by (simp add: under_roms_facts writable_def)

lemma mkpath_loop_reached:
  assumes "well_formed s" and "\<not> readonly s" and "under_roms pre" and "reached s (ensured pre)"
  shows "well_formed (mkpath_loop pre rest s) \<and>
         reached (mkpath_loop pre rest s) (ensured (pre @ rest)) \<and>
         grows s (mkpath_loop pre rest s)"
  using assms
proof (induction rest arbitrary: pre s)
  case Nil
  then show ?case by (simp add: grows_refl)
next
  case (Cons c rest)
  define s1 where "s1 = (if c = SLASH then snd (mkdir s pre) else s)"
  have g: "grows s s1"
    by (simp add: s1_def mkdir_grows grows_refl)
  have w: "well_formed s1"
    using Cons.prems(1) by (simp add: s1_def mkdir_well_formed)
  have r: "\<not> readonly s1"
    using g Cons.prems(2) by (simp add: grows_def)
  have u: "under_roms (pre @ [c])"
    using Cons.prems(3) by (rule under_roms_append)
  have e: "reached s1 (ensured (pre @ [c]))"
  proof (cases "c = SLASH")
    case True
    have "reached (snd (mkdir s pre)) (resolve pre)"
    proof (rule mkdir_reached)
      show "pre \<noteq> []" using Cons.prems(3) by (rule under_roms_facts)
      show "writable s (resolve pre)" using Cons.prems(3,2) by (rule under_roms_writable)
      show "reached s (resolve pre) \<or> (resolve pre \<noteq> [] \<and> reached s (butlast (resolve pre)))"
        using split_path_ensured[of pre] Cons.prems(4) under_roms_facts(2)[OF Cons.prems(3)]
        by auto
    qed
    then show ?thesis
      using True by (simp add: s1_def ensured_snoc_slash under_roms_facts(2)[OF Cons.prems(3)])
  next
    case False
    then show ?thesis
      using Cons.prems(4) by (simp add: s1_def ensured_snoc_other)
  qed
  note ih = Cons.IH[OF w r u e]
  have m: "mkpath_loop pre (c # rest) s = mkpath_loop (pre @ [c]) rest s1"
    by (simp add: s1_def)
  show ?case
    unfolding m using ih g by (auto intro: grows_trans)
qed

lemma take_split_path_cut:
  "split_path pre = take (length (split_path pre)) (split_path (pre @ SLASH # rest))"
  by (simp add: split_path_append_slash)

lemma mkpath_loop_saturated:
  assumes "saturated s (split_path (pre @ rest))" and "under_roms pre"
  shows "mkpath_loop pre rest s = s"
  using assms
proof (induction rest arbitrary: pre)
  case Nil
  then show ?case by simp
next
  case (Cons c rest)
  have u: "under_roms (pre @ [c])"
    using Cons.prems(2) by (rule under_roms_append)
  have "c = SLASH \<Longrightarrow> snd (mkdir s pre) = s"
  proof -
    assume c: "c = SLASH"
    have "\<not> creatable s (take (length (split_path pre)) (split_path (pre @ SLASH # rest)))"
      using Cons.prems(1) unfolding saturated_def c by blast
    then have "\<not> creatable s (resolve pre)"
      using take_split_path_cut[of pre rest] under_roms_facts(2)[OF Cons.prems(2)] by simp
    then show ?thesis
      using under_roms_facts(1)[OF Cons.prems(2)] by (simp add: mkdir_state)
  qed
  then have "mkpath_loop pre (c # rest) s = mkpath_loop (pre @ [c]) rest s"
    by simp
  then show ?case
    using Cons.IH[OF _ u] Cons.prems(1) by simp
qed

text \<open>
  \<open>mkpath\<close> on a directory below \<open>/roms\<close>: on a writable card it ends with the
  directory in place unless a file stands at one of its segments; and where no segment can
  be created it changes nothing.
\<close>

lemma mkpath_unfold:
  assumes "under_roms dir" and "length dir \<le> 1023"
  shows "mkpath s dir =
     (case mkdir (mkpath_loop ''/roms'' (drop 5 dir) s) dir of
        (None, s') \<Rightarrow> (0, s')
      | (Some e, s') \<Rightarrow> if e \<noteq> EEXIST then (- 1, s') else (0, s'))"
proof -
  from assms(1) obtain y where d: "dir = ''/roms'' @ y"
    by (auto simp: under_roms_def)
  have t: "take 1023 dir = dir"
    using assms(2) by simp
  have "mkpath_loop ''/'' (''roms'' @ y) s = mkpath_loop ''/roms'' y s"
    by (simp add: SLASH_def)
  then show ?thesis
    unfolding mkpath_def t by (simp add: d)
qed

lemma mkpath_reached:
  assumes "under_roms dir" and "length dir \<le> 1023" and "well_formed s" and "\<not> readonly s"
  shows "well_formed (snd (mkpath s dir)) \<and> reached (snd (mkpath s dir)) (split_path dir) \<and>
         grows s (snd (mkpath s dir))"
proof -
  from assms(1) obtain y where d: "dir = ''/roms'' @ y"
    by (auto simp: under_roms_def)
  define s1 where "s1 = mkpath_loop ''/roms'' (drop 5 dir) s"
  have u: "under_roms ''/roms''"
    by (simp add: under_roms_def)
  have "ensured ''/roms'' = []"
    by (simp add: ensured_def SLASH_def)
  then have "reached s (ensured ''/roms'')"
    by (simp add: reached_def is_dir_def)
  from mkpath_loop_reached[OF assms(3,4) u this, of "drop 5 dir"]
  have 1: "well_formed s1" "reached s1 (ensured dir)" "grows s s1"
    by (simp_all add: s1_def d)
  have r1: "\<not> readonly s1"
    using 1(3) assms(4) by (simp add: grows_def)
  have "reached (snd (mkdir s1 dir)) (resolve dir)"
  proof (rule mkdir_reached)
    show "dir \<noteq> []" using assms(1) by (rule under_roms_facts)
    show "writable s1 (resolve dir)" using assms(1) r1 by (rule under_roms_writable)
    show "reached s1 (resolve dir) \<or> (resolve dir \<noteq> [] \<and> reached s1 (butlast (resolve dir)))"
      using split_path_ensured[of dir] 1(2) under_roms_facts(2)[OF assms(1)] by auto
  qed
  then have 2: "reached (snd (mkdir s1 dir)) (split_path dir)"
    by (simp add: under_roms_facts(2)[OF assms(1)])
  have 3: "well_formed (snd (mkdir s1 dir))" "grows s (snd (mkdir s1 dir))"
    using 1 mkdir_well_formed mkdir_grows grows_trans by blast+
  have "snd (mkpath s dir) = snd (mkdir s1 dir)"
    unfolding mkpath_unfold[OF assms(1,2)] s1_def
    by (simp split: prod.splits option.splits)
  then show ?thesis
    using 2 3 by simp
qed

lemma mkpath_saturated:
  assumes "under_roms dir" and "length dir \<le> 1023" and "saturated s (split_path dir)"
  shows "snd (mkpath s dir) = s"
proof -
  from assms(1) obtain y where d: "dir = ''/roms'' @ y"
    by (auto simp: under_roms_def)
  have u: "under_roms ''/roms''"
    by (simp add: under_roms_def)
  have 1: "mkpath_loop ''/roms'' (drop 5 dir) s = s"
    using mkpath_loop_saturated[OF _ u, of s "drop 5 dir"] assms(3) by (simp add: d)
  have "\<not> creatable s (take (length (split_path dir)) (split_path dir))"
    using assms(3) unfolding saturated_def by blast
  then have "\<not> creatable s (resolve dir)"
    by (simp add: under_roms_facts(2)[OF assms(1)])
  then have 2: "snd (mkdir s dir) = s"
    using under_roms_facts(1)[OF assms(1)] by (simp add: mkdir_state)
  show ?thesis
    unfolding mkpath_unfold[OF assms(1,2)] 1 using 2
    by (cases "mkdir s dir") (auto split: option.splits)
qed

lemma saturated_from_reached:
  assumes "reached a p" and "well_formed a" and "well_formed b"
    and "dirs a \<subseteq> dirs b" and "\<And>q. files a q \<noteq> None \<Longrightarrow> files b q \<noteq> None"
  shows "saturated b p" and "is_dir b p \<Longrightarrow> is_dir a p"
proof -
  have nofile: "files b q = None" if "is_dir b q" "q \<noteq> []" for q
    using that assms(3) by (auto simp: well_formed_def is_dir_def)
  have up: "is_dir b q" if "is_dir a q" for q
    using that assms(4) by (auto simp: is_dir_def split: if_splits)
  show "saturated b p"
    unfolding saturated_def
  proof (intro allI notI)
    fix k
    assume c: "creatable b (take k p)"
    then have c': "take k p \<noteq> []" "take k p \<notin> dirs b" "files b (take k p) = None"
      "is_dir b (butlast (take k p))"
      by (simp_all add: creatable_def)
    from assms(1) show False
      unfolding reached_def
    proof
      assume "is_dir a p"
      then have "is_dir a (take k p)" using assms(2) is_dir_take by blast
      then have "is_dir b (take k p)" by (rule up)
      with c' show False by (simp add: is_dir_def)
    next
      assume "blocked a p"
      then obtain j where j: "j < length p" "is_dir a (take j p)" "files a (take (Suc j) p) \<noteq> None"
        by (auto simp: blocked_def)
      have fb: "files b (take (Suc j) p) \<noteq> None"
        using j(3) by (rule assms(5))
      consider "k \<le> j" | "k = Suc j" | "Suc j < k" by linarith
      then show False
      proof cases
        case 1
        then have "take k p = take k (take j p)" by (simp add: min_def)
        then have "is_dir a (take k p)" using j(2) assms(2) is_dir_take by metis
        then have "is_dir b (take k p)" by (rule up)
        with c' show False by (simp add: is_dir_def)
      next
        case 2
        with fb c' show False by simp
      next
        case 3
        show False
        proof (cases "Suc j < length p")
          case True
          have "Suc j < length (take k p)"
            using 3 True by simp
          then have "take (Suc j) (butlast (take k p)) = take (Suc j) (take k p)"
            by (rule take_butlast)
          also have "\<dots> = take (Suc j) p"
            using 3 by (simp add: min_def)
          finally have "take (Suc j) p = take (Suc j) (butlast (take k p))"
            by simp
          then have "is_dir b (take (Suc j) p)"
            using c'(4) assms(3) is_dir_take by metis
          moreover have "take (Suc j) p \<noteq> []" using j(1) by auto
          ultimately have "files b (take (Suc j) p) = None" by (rule nofile)
          with fb show False by simp
        next
          case False
          then have "take k p = take (Suc j) p"
            using 3 j(1) by simp
          with fb c' show False by simp
        qed
      qed
    qed
  qed
  show "is_dir a p" if d: "is_dir b p"
  proof (rule ccontr)
    assume "\<not> is_dir a p"
    with assms(1) have "blocked a p" by (simp add: reached_def)
    then obtain j where j: "j < length p" "is_dir a (take j p)" "files a (take (Suc j) p) \<noteq> None"
      by (auto simp: blocked_def)
    have "is_dir b (take (Suc j) p)" using d assms(3) is_dir_take by blast
    moreover have "take (Suc j) p \<noteq> []" using j(1) by auto
    ultimately have "files b (take (Suc j) p) = None" by (rule nofile)
    moreover have "files b (take (Suc j) p) \<noteq> None" using j(3) by (rule assms(5))
    ultimately show False by simp
  qed
qed

subsection \<open>The copy loop\<close>

lemma copy_loop_closed:
  assumes "fst src \<noteq> fst dst"
    and "snd src \<le> length (content s (fst src))"
    and "snd dst = snd src"
    and "snd src \<le> max_file s"
    and "files s (fst dst) = Some (take (snd src) (content s (fst src)))"
  shows "copy_loop s src dst =
           (if length (content s (fst src)) \<le> max_file s then 0
            else MAKERESULT Module_Libnx LibnxError_IoError,
            fclose (fclose (s\<lparr>files := (files s)(fst dst \<mapsto> take (max_file s) (content s (fst src)))\<rparr>)))"
  using assms
proof (induction s src dst rule: copy_loop.induct)
  case (1 s src dst)
  let ?data = "content s (fst src)"
  define buf where "buf = take 8192 (drop (snd src) ?data)"
  have bl: "snd src + length buf \<le> length ?data"
    using 1(3) by (simp add: buf_def)
  show ?case
  proof (cases "buf = []")
    case True
    then have e: "snd src = length ?data" using 1(3) by (auto simp: buf_def)
    then have "take (snd src) ?data = take (max_file s) ?data"
      using 1(5) by simp
    then have "s\<lparr>files := (files s)(fst dst \<mapsto> take (max_file s) ?data)\<rparr> = s"
      using 1(6) by (simp add: fun_upd_idem)
    moreover have "copy_loop s src dst = (0, fclose (fclose s))"
      using True by (subst copy_loop.simps) (simp add: fread_def Let_def buf_def)
    moreover have "length ?data \<le> max_file s"
      using e 1(5) by simp
    ultimately show ?thesis by (simp only: if_True)
  next
    case False
    then have n: "0 < length buf" by simp
    define w where "w = min (length buf) (max_file s - snd dst)"
    define bytes where "bytes = write_at (content s (fst dst)) (snd dst) (take w buf)"
    define s' where "s' = s\<lparr>files := (files s)(fst dst \<mapsto> bytes)\<rparr>"
    define src' where "src' = (fst src, snd src + length buf)"
    define dst' where "dst' = (fst dst, snd dst + w)"
    have rd: "fread s src 8192 = (buf, src')"
      by (simp add: fread_def Let_def src'_def buf_def)
    have fw: "fwrite s dst buf = (w, dst', s')"
      by (simp add: fwrite_def Let_def w_def dst'_def s'_def bytes_def)
    have cd: "content s (fst dst) = take (snd src) ?data"
      using 1(6) by (simp add: content_def)
    have tb: "take w buf = take w (drop (snd src) ?data)"
      by (simp add: buf_def w_def min_def)
    have bytes: "bytes = take (snd src + w) ?data"
    proof (cases "w = 0")
      case True
      then show ?thesis by (simp add: bytes_def write_at_def cd)
    next
      case False
      have "take w buf \<noteq> []" using False \<open>buf \<noteq> []\<close> by (auto simp: w_def)
      moreover have "length (take (snd src) ?data) = snd src"
        using 1(3) by simp
      ultimately have "bytes = take (snd src) ?data @ take w buf"
        by (simp add: bytes_def write_at_def cd 1(4))
      then show ?thesis by (simp add: tb take_take_drop)
    qed
    have c': "content s' (fst src) = ?data"
      using 1(2) by (simp add: s'_def content_def)
    have m': "max_file s' = max_file s" by (simp add: s'_def)
    show ?thesis
    proof (cases "w = length buf")
      case short: False
      then have wm: "w = max_file s - snd src" and big: "max_file s < snd src + length buf"
        unfolding w_def 1(4) by (simp_all add: min_def split: if_splits)
      have gt: "\<not> length ?data \<le> max_file s"
        using big bl by simp
      have "snd src + w = max_file s"
        using wm 1(5) by simp
      then have b: "bytes = take (max_file s) ?data"
        using bytes by simp
      have "copy_loop s src dst = (MAKERESULT Module_Libnx LibnxError_IoError, fclose (fclose s'))"
        using n short by (subst copy_loop.simps) (simp add: rd fw)
      then show ?thesis
        by (simp only: s'_def b gt if_False)
    next
      case full: True
      have "w \<le> max_file s - snd src"
        by (simp add: w_def 1(4))
      then have le: "snd src + length buf \<le> max_file s"
        using full n by arith
      have IH: "copy_loop s' src' dst' =
           (if length (content s' (fst src')) \<le> max_file s' then 0
            else MAKERESULT Module_Libnx LibnxError_IoError,
            fclose (fclose (s'\<lparr>files := (files s')(fst dst' \<mapsto> take (max_file s') (content s' (fst src')))\<rparr>)))"
      proof (rule 1(1)[OF rd[symmetric] _ fw[symmetric] refl])
        show "0 < length buf" by (rule n)
        show "\<not> w \<noteq> length buf" using full by simp
        show "fst src' \<noteq> fst dst'" using 1(2) by (simp add: src'_def dst'_def)
        show "snd src' \<le> length (content s' (fst src'))"
          using bl by (simp add: src'_def c')
        show "snd dst' = snd src'"
          using 1(4) full by (simp add: src'_def dst'_def)
        show "snd src' \<le> max_file s'"
          using le by (simp add: src'_def m')
        have "files s' (fst dst) = Some bytes"
          by (simp add: s'_def)
        then show "files s' (fst dst') = Some (take (snd src') (content s' (fst src')))"
          using full by (simp add: src'_def dst'_def c' bytes)
      qed
      have "copy_loop s src dst = copy_loop s' src' dst'"
        using n full by (subst copy_loop.simps) (simp add: rd fw)
      also have "\<dots> = (if length ?data \<le> max_file s then 0
            else MAKERESULT Module_Libnx LibnxError_IoError,
            fclose (fclose (s\<lparr>files := (files s)(fst dst \<mapsto> take (max_file s) ?data)\<rparr>)))"
        unfolding IH using 1(2) by (simp add: s'_def src'_def dst'_def content_def)
      finally show ?thesis .
    qed
  qed
qed


subsection \<open>One entry: the destination, its directory and the copy\<close>

lemma mkpath_loop_grows: "grows s (mkpath_loop pre rest s)"
proof (induction rest arbitrary: pre s)
  case Nil
  show ?case by (simp add: grows_refl)
next
  case (Cons c rest)
  define s1 where "s1 = (if c = SLASH then snd (mkdir s pre) else s)"
  have g1: "grows s s1"
    by (simp add: s1_def mkdir_grows grows_refl)
  have g2: "grows s1 (mkpath_loop (pre @ [c]) rest s1)"
    by (rule Cons.IH)
  have "mkpath_loop pre (c # rest) s = mkpath_loop (pre @ [c]) rest s1"
    by (simp add: s1_def)
  then show ?case
    using grows_trans[OF g1 g2] by simp
qed

lemma mkpath_loop_well_formed: "well_formed s \<Longrightarrow> well_formed (mkpath_loop pre rest s)"
  by (induction rest arbitrary: pre s) (simp_all add: mkdir_well_formed)

lemma snd_mkpath:
  "snd (mkpath s path) =
     (case take 1023 path of
        [] \<Rightarrow> s
      | c # rest \<Rightarrow> snd (mkdir (mkpath_loop [c] rest s) (c # rest)))"
proof (cases "take 1023 path")
  case Nil
  then show ?thesis by (simp add: mkpath_def)
next
  case (Cons c rest)
  obtain r s' where m: "mkdir (mkpath_loop [c] rest s) (c # rest) = (r, s')"
    by (cases "mkdir (mkpath_loop [c] rest s) (c # rest)")
  show ?thesis
    by (cases r) (simp_all add: mkpath_def Cons m)
qed

lemma mkpath_grows: "grows s (snd (mkpath s path))"
proof (cases "take 1023 path")
  case Nil
  then show ?thesis by (simp add: snd_mkpath grows_refl)
next
  case (Cons c rest)
  have "grows s (snd (mkdir (mkpath_loop [c] rest s) (c # rest)))"
    by (rule grows_trans[OF mkpath_loop_grows mkdir_grows])
  then show ?thesis
    by (simp add: snd_mkpath Cons)
qed

lemma mkpath_well_formed: "well_formed s \<Longrightarrow> well_formed (snd (mkpath s path))"
  by (cases "take 1023 path") (simp_all add: snd_mkpath mkpath_loop_well_formed mkdir_well_formed)

lemma ensure_dir_grows: "grows s (ensure_dir s dstPath)"
  by (simp add: ensure_dir_def Let_def mkpath_grows grows_refl split: option.splits)

lemma ensure_dir_well_formed: "well_formed s \<Longrightarrow> well_formed (ensure_dir s dstPath)"
  by (simp add: ensure_dir_def Let_def mkpath_well_formed split: option.splits)

text \<open>
  A destination of the stub: below \<open>/roms\<close>, with a slash after that, and short enough
  for the buffers of \<open>copyFile\<close> and \<open>mkpath\<close>.
\<close>

definition entry_dst :: "string \<Rightarrow> bool" where
  "entry_dst dstPath = (under_roms dstPath \<and> SLASH \<in> set (drop 5 dstPath) \<and> length dstPath \<le> 1023)"

lemma entry_dst_split:
  assumes "entry_dst dstPath"
  obtains dir base where "dstPath = dir @ SLASH # base" and "SLASH \<notin> set base"
    and "under_roms dir" and "length dir \<le> 1023"
    and "\<And>s. ensure_dir s dstPath = snd (mkpath s dir)"
proof -
  from assms have u: "under_roms dstPath" and sl: "SLASH \<in> set (drop 5 dstPath)"
    and len: "length dstPath \<le> 1023"
    by (simp_all add: entry_dst_def)
  from sl have "SLASH \<in> set dstPath"
    by (rule in_set_dropD)
  from strrchr_Some[OF this] obtain i where i: "strrchr dstPath SLASH = Some i" "i < length dstPath"
    "dstPath = take i dstPath @ SLASH # drop (Suc i) dstPath" "SLASH \<notin> set (drop (Suc i) dstPath)"
    by blast
  have "5 \<le> i"
  proof (rule ccontr)
    assume "\<not> 5 \<le> i"
    then have "drop 5 dstPath = drop (5 - Suc i) (drop (Suc i) dstPath)"
      by simp
    then have "set (drop 5 dstPath) \<subseteq> set (drop (Suc i) dstPath)"
      by (metis set_drop_subset)
    with sl i(4) show False by blast
  qed
  from u obtain y where y: "dstPath = ''/roms'' @ y"
    by (auto simp: under_roms_def)
  have "take i (''/roms'' @ y) = take i ''/roms'' @ take (i - length ''/roms'') y"
    by (rule take_append)
  moreover have "take i ''/roms'' = ''/roms''"
    using \<open>5 \<le> i\<close> by simp
  ultimately have "take i dstPath = ''/roms'' @ take (i - length ''/roms'') y"
    by (simp only: y)
  then have ud: "under_roms (take i dstPath)"
    unfolding under_roms_def by blast
  have t: "take 1023 dstPath = dstPath"
    using len by simp
  have e: "ensure_dir s dstPath = snd (mkpath s (take i dstPath))" for s
    by (simp add: ensure_dir_def t i(1))
  have ld: "length (take i dstPath) \<le> 1023"
    using len by simp
  show ?thesis
    by (rule that[OF i(3) i(4) ud ld e])
qed

lemma entry_dst_resolve:
  assumes "under_roms dir" and "SLASH \<notin> set base"
  shows "resolve (dir @ SLASH # base) = split_path dir @ (if base = [] then [] else [base])"
    and "ends_slash (dir @ SLASH # base) = (base = [])"
    and "\<not> on_romfs (resolve (dir @ SLASH # base))"
    and "resolve (dir @ SLASH # base) \<noteq> []"
proof -
  have u: "under_roms (dir @ SLASH # base)"
    using assms(1) by (rule under_roms_append)
  show r: "resolve (dir @ SLASH # base) = split_path dir @ (if base = [] then [] else [base])"
    using assms(2) by (simp add: under_roms_facts(2)[OF u] split_path_append_slash split_path_segment)
  show "ends_slash (dir @ SLASH # base) = (base = [])"
    using assms(2) by (cases base rule: rev_cases) (auto simp: ends_slash_def)
  show "\<not> on_romfs (resolve (dir @ SLASH # base))"
    using under_roms_facts(2,3)[OF u] by simp
  show "resolve (dir @ SLASH # base) \<noteq> []"
    using under_roms_facts(2,4)[OF u] by simp
qed

lemma fopen_wb_entry:
  assumes "under_roms dir" and "SLASH \<notin> set base"
  shows "fopen_wb s (dir @ SLASH # base) =
     (if base = [] \<or> split_path dir @ [base] \<in> dirs s \<or> \<not> is_dir s (split_path dir) \<or> readonly s
      then None
      else Some ((split_path dir @ [base], 0),
                 s\<lparr>files := (files s)(split_path dir @ [base] \<mapsto> []),
                   open_streams := open_streams s + 1\<rparr>))"
proof (cases "base = []")
  case True
  then show ?thesis
    using entry_dst_resolve(2)[OF assms] by (simp add: fopen_wb_def Let_def)
next
  case False
  note r = entry_dst_resolve[OF assms]
  have p: "resolve (dir @ SLASH # base) = split_path dir @ [base]"
    using r(1) False by simp
  have nr: "\<not> on_romfs (split_path dir @ [base])"
    using r(3) p by simp
  show ?thesis
    using False r(2) nr by (auto simp: fopen_wb_def Let_def p writable_def)
qed


lemma romfs_src:
  "resolve (''romfs:/'' @ f) = ''romfs:'' # split_path f"
  "on_romfs (resolve (''romfs:/'' @ f))"
proof -
  show "resolve (''romfs:/'' @ f) = ''romfs:'' # split_path f"
    by (rule resolve_romfs)
  then show "on_romfs (resolve (''romfs:/'' @ f))"
    by (simp only: on_romfs_def list.case)
qed

text \<open>
  \<open>copyFile\<close> on an entry, in closed form. The source lies on the archive; the
  destination is written as its directory \<open>dir\<close>, a slash and the last segment
  \<open>base\<close>.
\<close>

lemma copyFile_entry:
  assumes "on_romfs (resolve srcPath)" and "under_roms dir" and "SLASH \<notin> set base"
    and "\<And>s. ensure_dir s (dir @ SLASH # base) = snd (mkpath s dir)"
  shows "copyFile s srcPath (dir @ SLASH # base) =
     (if ends_slash srcPath \<or> files s (resolve srcPath) = None
      then (MAKERESULT Module_Libnx LibnxError_NotFound, s)
      else if base = [] \<or>
              split_path dir @ [base] \<in> dirs (snd (mkpath (s\<lparr>open_streams := open_streams s + 1\<rparr>) dir)) \<or>
              \<not> is_dir (snd (mkpath (s\<lparr>open_streams := open_streams s + 1\<rparr>) dir)) (split_path dir) \<or>
              readonly s
      then (MAKERESULT Module_Libnx LibnxError_IoError,
            fclose (snd (mkpath (s\<lparr>open_streams := open_streams s + 1\<rparr>) dir)))
      else (if length (content s (resolve srcPath)) \<le> max_file s then 0
            else MAKERESULT Module_Libnx LibnxError_IoError,
            (snd (mkpath (s\<lparr>open_streams := open_streams s + 1\<rparr>) dir))
              \<lparr>files := (files s)(split_path dir @ [base] \<mapsto>
                          take (max_file s) (content s (resolve srcPath))),
               open_streams := open_streams s\<rparr>))"
proof (cases "ends_slash srcPath \<or> files s (resolve srcPath) = None")
  case True
  then have "fopen_rb s srcPath = None"
    by (auto simp: fopen_rb_def Let_def)
  then show ?thesis
    using True by (simp add: copyFile_def)
next
  case False
  let ?sp = "resolve srcPath"
  let ?dp = "split_path dir @ [base]"
  define s1 where "s1 = s\<lparr>open_streams := open_streams s + 1\<rparr>"
  define s2 where "s2 = snd (mkpath s1 dir)"
  have o: "fopen_rb s srcPath = Some ((?sp, 0), s1)"
    using False by (auto simp: fopen_rb_def Let_def s1_def)
  have g: "grows s1 s2"
    by (simp add: s2_def mkpath_grows)
  then have f2: "files s2 = files s" and m2: "max_file s2 = max_file s" and r2: "readonly s2 = readonly s"
    and o2: "open_streams s2 = open_streams s + 1"
    by (simp_all add: grows_def s1_def)
  have c: "copyFile s srcPath (dir @ SLASH # base) =
     (case fopen_wb s2 (dir @ SLASH # base) of
        None \<Rightarrow> (MAKERESULT Module_Libnx LibnxError_IoError, fclose s2)
      | Some (dst, s3) \<Rightarrow> copy_loop s3 (?sp, 0) dst)"
    unfolding copyFile_def o s2_def Let_def assms(4) by simp
  have res: "copyFile s srcPath (dir @ SLASH # base) =
     (if ends_slash srcPath \<or> files s (resolve srcPath) = None
      then (MAKERESULT Module_Libnx LibnxError_NotFound, s)
      else if base = [] \<or> ?dp \<in> dirs s2 \<or> \<not> is_dir s2 (split_path dir) \<or> readonly s
      then (MAKERESULT Module_Libnx LibnxError_IoError, fclose s2)
      else (if length (content s ?sp) \<le> max_file s then 0
            else MAKERESULT Module_Libnx LibnxError_IoError,
            s2\<lparr>files := (files s)(?dp \<mapsto> take (max_file s) (content s ?sp)),
               open_streams := open_streams s\<rparr>))"
  proof (cases "base = [] \<or> ?dp \<in> dirs s2 \<or> \<not> is_dir s2 (split_path dir) \<or> readonly s")
    case True
    then have "fopen_wb s2 (dir @ SLASH # base) = None"
      by (simp add: fopen_wb_entry[OF assms(2,3)] r2)
    then have "copyFile s srcPath (dir @ SLASH # base) =
                 (MAKERESULT Module_Libnx LibnxError_IoError, fclose s2)"
      unfolding c by simp
    then show ?thesis
      using True False by (simp only: if_True if_False)
  next
    case open_ok: False
    define s3 where "s3 = s2\<lparr>files := (files s2)(?dp \<mapsto> []), open_streams := open_streams s2 + 1\<rparr>"
    have w: "fopen_wb s2 (dir @ SLASH # base) = Some ((?dp, 0), s3)"
      using open_ok by (simp add: fopen_wb_entry[OF assms(2,3)] r2 s3_def)
    have "\<not> on_romfs ?dp"
      using entry_dst_resolve(1,3)[OF assms(2,3)] open_ok by simp
    then have ne: "?sp \<noteq> ?dp"
      using assms(1) by metis
    have c3: "content s3 ?sp = content s ?sp"
      using ne by (simp add: s3_def content_def f2)
    have "copy_loop s3 (?sp, 0) (?dp, 0) =
           (if length (content s3 (fst (?sp, 0::nat))) \<le> max_file s3 then 0
            else MAKERESULT Module_Libnx LibnxError_IoError,
            fclose (fclose (s3\<lparr>files := (files s3)(fst (?dp, 0::nat) \<mapsto>
                      take (max_file s3) (content s3 (fst (?sp, 0::nat))))\<rparr>)))"
      by (rule copy_loop_closed) (use ne in \<open>simp_all add: s3_def\<close>)
    moreover have "max_file s3 = max_file s"
      by (simp add: s3_def m2)
    moreover have "fclose (fclose (s3\<lparr>files := (files s3)(?dp \<mapsto> take (max_file s) (content s ?sp))\<rparr>))
        = s2\<lparr>files := (files s)(?dp \<mapsto> take (max_file s) (content s ?sp)),
              open_streams := open_streams s\<rparr>"
      by (simp add: s3_def fclose_def f2 o2)
    ultimately have "copy_loop s3 (?sp, 0) (?dp, 0) =
           (if length (content s ?sp) \<le> max_file s then 0
            else MAKERESULT Module_Libnx LibnxError_IoError,
            s2\<lparr>files := (files s)(?dp \<mapsto> take (max_file s) (content s ?sp)),
              open_streams := open_streams s\<rparr>)"
      by (simp add: c3)
    then have "copyFile s srcPath (dir @ SLASH # base) =
           (if length (content s ?sp) \<le> max_file s then 0
            else MAKERESULT Module_Libnx LibnxError_IoError,
            s2\<lparr>files := (files s)(?dp \<mapsto> take (max_file s) (content s ?sp)),
              open_streams := open_streams s\<rparr>)"
      unfolding c w by simp
    then show ?thesis
      using open_ok False by (simp only: if_False)
  qed
  show ?thesis
    using res unfolding s2_def s1_def .
qed

text \<open>The two paths that the loop builds for an entry.\<close>

definition src_of :: "string \<Rightarrow> string" where
  "src_of filename = ''romfs:/'' @ filename"

definition dst_of :: "string \<Rightarrow> string \<Rightarrow> string" where
  "dst_of platform filename = ''/roms/'' @ platform @ ''/'' @ filename"

lemma src_of_romfs: "on_romfs (resolve (src_of filename))"
  unfolding src_of_def by (rule romfs_src)

lemma resolve_src_of: "resolve (src_of filename) = ''romfs:'' # split_path filename"
  unfolding src_of_def by (rule romfs_src)

lemma dst_of_entry:
  assumes "length platform \<le> 159" and "length filename \<le> 575"
  shows "entry_dst (dst_of platform filename)"
proof -
  have "dst_of platform filename = ''/roms'' @ (SLASH # platform @ ''/'' @ filename)"
    by (simp add: dst_of_def SLASH_def)
  then have "under_roms (dst_of platform filename)"
    unfolding under_roms_def by blast
  moreover have "SLASH \<in> set (drop 5 (dst_of platform filename))"
    by (simp add: dst_of_def SLASH_def)
  moreover have "length (dst_of platform filename) \<le> 1023"
    using assms by (simp add: dst_of_def)
  ultimately show ?thesis
    by (simp add: entry_dst_def)
qed

lemma main_loop_entry_paths:
  assumes "fgets 768 rest = Some (raw, rest')" and "trim_crlf raw \<noteq> []"
    and "sscanf_manifest (trim_crlf raw) = (2, platform, filename)"
  shows "main_loop s rest =
     (Print (''Copying '' @ src_of filename @ '' -> '' @ dst_of platform filename @ [LF]) #
      Print (if R_FAILED (fst (copyFile s (src_of filename) (dst_of platform filename)))
             then ''  Copy failed: 0x'' @
                  hex (unat (fst (copyFile s (src_of filename) (dst_of platform filename)))) @ [LF]
             else ''  Done.'' @ [LF]) #
      fst (main_loop (snd (copyFile s (src_of filename) (dst_of platform filename))) rest'),
      snd (main_loop (snd (copyFile s (src_of filename) (dst_of platform filename))) rest'))"
  using main_loop_entry[OF assms, of s] unfolding src_of_def dst_of_def by simp

text \<open>
  \<open>copyFile\<close> on an entry, as its own steps with the loop in closed form.
\<close>

lemma entry_dst_split_strong:
  assumes "entry_dst dstPath"
  obtains dir base where "dstPath = dir @ SLASH # base" and "SLASH \<notin> set base"
    and "under_roms dir" and "length dir \<le> 1023"
    and "\<And>s. ensure_dir s dstPath = snd (mkpath s dir)"
    and "strrchr (take 1023 dstPath) SLASH = Some (length dir)"
    and "take (length dir) (take 1023 dstPath) = dir"
proof -
  from assms have u: "under_roms dstPath" and sl: "SLASH \<in> set (drop 5 dstPath)"
    and len: "length dstPath \<le> 1023"
    by (simp_all add: entry_dst_def)
  from sl have "SLASH \<in> set dstPath"
    by (rule in_set_dropD)
  from strrchr_Some[OF this] obtain i where i: "strrchr dstPath SLASH = Some i" "i < length dstPath"
    "dstPath = take i dstPath @ SLASH # drop (Suc i) dstPath" "SLASH \<notin> set (drop (Suc i) dstPath)"
    by blast
  have "5 \<le> i"
  proof (rule ccontr)
    assume "\<not> 5 \<le> i"
    then have "drop 5 dstPath = drop (5 - Suc i) (drop (Suc i) dstPath)"
      by simp
    then have "set (drop 5 dstPath) \<subseteq> set (drop (Suc i) dstPath)"
      by (metis set_drop_subset)
    with sl i(4) show False by blast
  qed
  from u obtain y where y: "dstPath = ''/roms'' @ y"
    by (auto simp: under_roms_def)
  have "take i (''/roms'' @ y) = take i ''/roms'' @ take (i - length ''/roms'') y"
    by (rule take_append)
  moreover have "take i ''/roms'' = ''/roms''"
    using \<open>5 \<le> i\<close> by simp
  ultimately have "take i dstPath = ''/roms'' @ take (i - length ''/roms'') y"
    by (simp only: y)
  then have ud: "under_roms (take i dstPath)"
    unfolding under_roms_def by blast
  have t: "take 1023 dstPath = dstPath"
    using len by simp
  have e: "ensure_dir s dstPath = snd (mkpath s (take i dstPath))" for s
    by (simp add: ensure_dir_def t i(1))
  have ld: "length (take i dstPath) \<le> 1023"
    using len by simp
  have li: "length (take i dstPath) = i"
    using i(2) by simp
  have s1: "strrchr (take 1023 dstPath) SLASH = Some (length (take i dstPath))"
    unfolding t li by (rule i(1))
  have s2: "take (length (take i dstPath)) (take 1023 dstPath) = take i dstPath"
    unfolding t li ..
  show ?thesis
    by (rule that[OF i(3) i(4) ud ld e s1 s2])
qed

lemma mkpath_fails:
  assumes "under_roms dir" and "length dir \<le> 1023" and "fst (mkpath s dir) \<noteq> 0"
  shows "\<not> is_dir (snd (mkpath s dir)) (split_path dir)"
proof -
  define s1 where "s1 = mkpath_loop ''/roms'' (drop 5 dir) s"
  note n = under_roms_facts[OF assms(1)]
  obtain r s' where m: "mkdir s1 dir = (r, s')"
    by (cases "mkdir s1 dir")
  have u: "mkpath s dir = (case r of None \<Rightarrow> (0, s') | Some e \<Rightarrow> if e \<noteq> EEXIST then (- 1, s') else (0, s'))"
    unfolding mkpath_unfold[OF assms(1,2)] using m by (simp add: s1_def)
  with assms(3) obtain e where e: "r = Some e" "e \<noteq> EEXIST"
    by (cases r) (auto split: if_splits)
  have r: "fst (mkdir s1 dir) = Some e" and s': "snd (mkdir s1 dir) = s'"
    using m e by simp_all
  from r e(2) have nc: "\<not> creatable s1 (resolve dir)" and nd: "resolve dir \<notin> dirs s1"
    by (auto simp: mkdir_result[OF n(1)] split: if_splits)
  then have "s' = s1"
    using s' by (simp add: mkdir_state[OF n(1)])
  then have "snd (mkpath s dir) = s1"
    using u e by simp
  then show ?thesis
    using nd n(2,4) by (simp add: is_dir_def)
qed









subsection \<open>The scenario of the specification\<close>

lemma sscanf_snes:
  "sscanf_manifest (''snes'' @ [TAB] @ ''super_game.sfc'') = (2, ''snes'', ''super_game.sfc'')"
  by (simp add: sscanf_manifest_def scan_set_def Let_def isspace_def TAB_def LF_def CR_def)

lemma fgets_snes:
  "fgets 768 ((''snes'' @ [TAB] @ ''super_game.sfc'') @ LF # []) =
     Some ((''snes'' @ [TAB] @ ''super_game.sfc'') @ [LF], [])"
  by (rule fgets_line) (simp_all add: TAB_def LF_def NUL_def)

lemma trim_snes:
  "trim_crlf ((''snes'' @ [TAB] @ ''super_game.sfc'') @ [LF]) = ''snes'' @ [TAB] @ ''super_game.sfc''"
  by (rule trim_crlf_line) (simp add: LF_def CR_def)

lemma mkpath_roms_snes:
  assumes "\<not> readonly s" and "files s [''roms''] = None" and "files s [''roms'', ''snes''] = None"
  shows "dirs (snd (mkpath s ''/roms/snes'')) = insert [''roms'', ''snes''] (insert [''roms''] (dirs s))"
proof -
  have u: "under_roms ''/roms/snes''" "under_roms ''/roms''"
    by (simp_all add: under_roms_def)
  have r: "resolve ''/roms'' = [''roms'']" "resolve ''/roms/snes'' = [''roms'', ''snes'']"
    by (simp_all add: resolve_def SLASH_def)
  define s1 where "s1 = snd (mkdir s ''/roms'')"
  have l: "mkpath_loop ''/roms'' (drop 5 ''/roms/snes'') s = s1"
    by (simp add: s1_def SLASH_def)
  have c1: "creatable s [''roms''] = ([''roms''] \<notin> dirs s)"
    using assms by (simp add: creatable_def is_dir_def writable_def on_romfs_def)
  have d1: "dirs s1 = insert [''roms''] (dirs s)"
    unfolding s1_def by (auto simp: mkdir_state r c1)
  have g: "grows s s1"
    unfolding s1_def by (rule mkdir_grows)
  have c2: "creatable s1 [''roms'', ''snes''] = ([''roms'', ''snes''] \<notin> dirs s1)"
    using assms g by (simp add: creatable_def is_dir_def writable_def on_romfs_def d1 grows_def)
  have "dirs (snd (mkdir s1 ''/roms/snes'')) = insert [''roms'', ''snes''] (dirs s1)"
    by (auto simp: mkdir_state r c2)
  moreover have "snd (mkpath s ''/roms/snes'') = snd (mkdir s1 ''/roms/snes'')"
    unfolding mkpath_unfold[OF u(1), simplified] l[simplified]
    by (cases "mkdir s1 ''/roms/snes''") (auto split: option.splits)
  ultimately show ?thesis
    by (simp add: d1)
qed

lemma ensure_dir_snes:
  "ensure_dir s ''/roms/snes/super_game.sfc'' = snd (mkpath s ''/roms/snes'')"
  by (simp add: ensure_dir_def strrchr_def SLASH_def)

lemma scenario_copy:
  assumes "files s [''romfs:'', ''super_game.sfc''] = Some data" and "length data \<le> max_file s"
    and "\<not> readonly s" and "files s [''roms''] = None" and "files s [''roms'', ''snes''] = None"
    and "[''roms'', ''snes'', ''super_game.sfc''] \<notin> dirs s"
  shows "fst (copyFile s ''romfs:/super_game.sfc'' ''/roms/snes/super_game.sfc'') = 0"
    and "files (snd (copyFile s ''romfs:/super_game.sfc'' ''/roms/snes/super_game.sfc''))
           [''roms'', ''snes'', ''super_game.sfc''] = Some data"
proof -
  let ?s1 = "s\<lparr>open_streams := open_streams s + 1\<rparr>"
  have u: "under_roms ''/roms/snes''"
    by (simp add: under_roms_def)
  have b: "SLASH \<notin> set ''super_game.sfc''"
    by (simp add: SLASH_def)
  have e: "\<And>s. ensure_dir s (''/roms/snes'' @ SLASH # ''super_game.sfc'') = snd (mkpath s ''/roms/snes'')"
    using ensure_dir_snes by (simp add: SLASH_def)
  have sp: "resolve ''romfs:/super_game.sfc'' = [''romfs:'', ''super_game.sfc'']"
    by (simp add: resolve_def SLASH_def)
  have sr: "on_romfs (resolve ''romfs:/super_game.sfc'')"
    by (simp add: sp on_romfs_def)
  have dp: "split_path ''/roms/snes'' = [''roms'', ''snes'']"
    by (simp add: SLASH_def)
  have es: "\<not> ends_slash ''romfs:/super_game.sfc''"
    by (simp add: ends_slash_def SLASH_def)
  have d2: "dirs (snd (mkpath ?s1 ''/roms/snes'')) = insert [''roms'', ''snes''] (insert [''roms''] (dirs s))"
    using mkpath_roms_snes[of ?s1] assms by simp
  have c: "content s [''romfs:'', ''super_game.sfc''] = data"
    using assms(1) by (simp add: content_def)
  note r = copyFile_entry[OF sr u b e, where s = s, unfolded sp dp c]
  have k: "copyFile s ''romfs:/super_game.sfc'' (''/roms/snes'' @ SLASH # ''super_game.sfc'') =
      (0, (snd (mkpath ?s1 ''/roms/snes''))
            \<lparr>files := (files s)([''roms'', ''snes'', ''super_game.sfc''] \<mapsto> data),
             open_streams := open_streams s\<rparr>)"
    unfolding r using assms es d2 by (simp add: is_dir_def)
  have n: "''/roms/snes'' @ SLASH # ''super_game.sfc'' = ''/roms/snes/super_game.sfc''"
    by (simp add: SLASH_def)
  show "fst (copyFile s ''romfs:/super_game.sfc'' ''/roms/snes/super_game.sfc'') = 0"
    using k unfolding n by simp
  show "files (snd (copyFile s ''romfs:/super_game.sfc'' ''/roms/snes/super_game.sfc''))
           [''roms'', ''snes'', ''super_game.sfc''] = Some data"
    using k unfolding n by simp
qed


lemma scenario_main:
  assumes "\<not> R_FAILED (romfs_rc s)"
    and "files s [''romfs:'', ''filelist.txt''] = Some (''snes'' @ [TAB] @ ''super_game.sfc'' @ [LF])"
    and "files s [''romfs:'', ''super_game.sfc''] = Some data" and "length data \<le> max_file s"
    and "\<not> readonly s" and "files s [''roms''] = None" and "files s [''roms'', ''snes''] = None"
    and "[''roms'', ''snes'', ''super_game.sfc''] \<notin> dirs s"
  shows "fst (manifest_main s) =
           [Print (''Copying romfs:/super_game.sfc -> /roms/snes/super_game.sfc'' @ [LF]),
            Print (''  Done.'' @ [LF]), Print (''Press PLUS to exit.'' @ [LF]), WaitPlus] \<and>
         files (snd (manifest_main s)) [''roms'', ''snes'', ''super_game.sfc''] = Some data"
proof -
  define s1 where "s1 = s\<lparr>open_streams := open_streams s + 1\<rparr>"
  define s2 where "s2 = snd (copyFile s1 ''romfs:/super_game.sfc'' ''/roms/snes/super_game.sfc'')"
  have o: "fopen_rb s (snprintf 128 (''romfs:/'' @ FILELIST)) = Some (([''romfs:'', ''filelist.txt''], 0), s1)"
    using assms(2)
    by (simp add: fopen_rb_def resolve_listPath[simplified] ends_slash_listPath[simplified] Let_def s1_def)
  have c: "content s1 [''romfs:'', ''filelist.txt''] = (''snes'' @ [TAB] @ ''super_game.sfc'') @ [LF]"
    using assms(2) by (simp add: content_def s1_def)
  have k: "fst (copyFile s1 ''romfs:/super_game.sfc'' ''/roms/snes/super_game.sfc'') = 0"
    "files s2 [''roms'', ''snes'', ''super_game.sfc''] = Some data"
    unfolding s2_def using scenario_copy[of s1 data] assms by (simp_all add: s1_def)
  have n: "''snes'' @ [TAB] @ ''super_game.sfc'' \<noteq> []"
    by simp
  have t: "trim_crlf ((''snes'' @ [TAB] @ ''super_game.sfc'') @ [LF]) \<noteq> []"
    unfolding trim_snes by simp
  have p: "sscanf_manifest (trim_crlf ((''snes'' @ [TAB] @ ''super_game.sfc'') @ [LF]))
             = (2, ''snes'', ''super_game.sfc'')"
    unfolding trim_snes by (rule sscanf_snes)
  have e: "''romfs:/'' @ ''super_game.sfc'' = ''romfs:/super_game.sfc''"
    "''/roms/'' @ ''snes'' @ ''/'' @ ''super_game.sfc'' = ''/roms/snes/super_game.sfc''"
    by simp_all
  note m = main_loop_entry[OF fgets_snes[unfolded append_Nil2[symmetric]] t p, of s1, unfolded e]
  have nf: "\<not> R_FAILED (fst (copyFile s1 ''romfs:/super_game.sfc'' ''/roms/snes/super_game.sfc''))"
    unfolding k(1) by (simp add: R_FAILED_def)
  have ml: "main_loop s1 ((''snes'' @ [TAB] @ ''super_game.sfc'') @ [LF]) =
          ([Print (''Copying romfs:/super_game.sfc -> /roms/snes/super_game.sfc'' @ [LF]),
            Print (''  Done.'' @ [LF])], s2)"
    unfolding m s2_def[symmetric] main_loop_eof using nf by simp
  have mm: "manifest_main s =
     (fst (main_loop s1 (content s1 [''romfs:'', ''filelist.txt''])) @
        [Print (''Press PLUS to exit.'' @ [LF]), WaitPlus],
      fclose (snd (main_loop s1 (content s1 [''romfs:'', ''filelist.txt'']))))"
    using assms(1) by (simp add: manifest_main_def Let_def o[simplified] case_prod_beta)
  show ?thesis
    unfolding mm c ml using k(2) by (simp add: fclose_def)
qed

text \<open>
  Claim C5. For every line that \<open>sscanf\<close> accepts, the loop copies from \<open>romfs:/\<close>
  followed by the file name to \<open>/roms/\<close>, the category, a slash and the file name. For
  the manifest \<open>snes\<close>, TAB, \<open>super_game.sfc\<close>, on a writable card where no file stands
  in the way and the ROM fits, the file \<open>/roms/snes/super_game.sfc\<close> ends with the bytes
  of the source.
\<close>

theorem entry_paths_and_scenario:
  "(\<forall>s rest raw rest' platform filename.
      fgets 768 rest = Some (raw, rest') \<longrightarrow> trim_crlf raw \<noteq> [] \<longrightarrow>
      sscanf_manifest (trim_crlf raw) = (2, platform, filename) \<longrightarrow>
      main_loop s rest =
        (Print (''Copying romfs:/'' @ filename @ '' -> /roms/'' @ platform @ ''/'' @ filename @ [LF]) #
         Print (if R_FAILED (fst (copyFile s (''romfs:/'' @ filename) (''/roms/'' @ platform @ ''/'' @ filename)))
                then ''  Copy failed: 0x'' @
                     hex (unat (fst (copyFile s (''romfs:/'' @ filename) (''/roms/'' @ platform @ ''/'' @ filename)))) @ [LF]
                else ''  Done.'' @ [LF]) #
         fst (main_loop (snd (copyFile s (''romfs:/'' @ filename) (''/roms/'' @ platform @ ''/'' @ filename))) rest'),
         snd (main_loop (snd (copyFile s (''romfs:/'' @ filename) (''/roms/'' @ platform @ ''/'' @ filename))) rest'))) \<and>
   (\<forall>s data.
      \<not> R_FAILED (romfs_rc s) \<longrightarrow>
      files s [''romfs:'', ''filelist.txt''] = Some (''snes'' @ [TAB] @ ''super_game.sfc'' @ [LF]) \<longrightarrow>
      files s [''romfs:'', ''super_game.sfc''] = Some data \<longrightarrow> length data \<le> max_file s \<longrightarrow>
      \<not> readonly s \<longrightarrow> files s [''roms''] = None \<longrightarrow> files s [''roms'', ''snes''] = None \<longrightarrow>
      [''roms'', ''snes'', ''super_game.sfc''] \<notin> dirs s \<longrightarrow>
      fst (manifest_main s) =
        [Print (''Copying romfs:/super_game.sfc -> /roms/snes/super_game.sfc'' @ [LF]),
         Print (''  Done.'' @ [LF]), Print (''Press PLUS to exit.'' @ [LF]), WaitPlus] \<and>
      files (snd (manifest_main s)) [''roms'', ''snes'', ''super_game.sfc''] = Some data)"
proof (intro conjI allI impI)
  fix s :: world and rest raw rest' platform filename :: string
  assume "fgets 768 rest = Some (raw, rest')" "trim_crlf raw \<noteq> []"
    "sscanf_manifest (trim_crlf raw) = (2, platform, filename)"
  then show "main_loop s rest =
        (Print (''Copying romfs:/'' @ filename @ '' -> /roms/'' @ platform @ ''/'' @ filename @ [LF]) #
         Print (if R_FAILED (fst (copyFile s (''romfs:/'' @ filename) (''/roms/'' @ platform @ ''/'' @ filename)))
                then ''  Copy failed: 0x'' @
                     hex (unat (fst (copyFile s (''romfs:/'' @ filename) (''/roms/'' @ platform @ ''/'' @ filename)))) @ [LF]
                else ''  Done.'' @ [LF]) #
         fst (main_loop (snd (copyFile s (''romfs:/'' @ filename) (''/roms/'' @ platform @ ''/'' @ filename))) rest'),
         snd (main_loop (snd (copyFile s (''romfs:/'' @ filename) (''/roms/'' @ platform @ ''/'' @ filename))) rest'))"
    by (rule main_loop_entry)
next
  fix s :: world and data :: string
  assume a: "\<not> R_FAILED (romfs_rc s)"
    "files s [''romfs:'', ''filelist.txt''] = Some (''snes'' @ [TAB] @ ''super_game.sfc'' @ [LF])"
    "files s [''romfs:'', ''super_game.sfc''] = Some data" "length data \<le> max_file s"
    "\<not> readonly s" "files s [''roms''] = None" "files s [''roms'', ''snes''] = None"
    "[''roms'', ''snes'', ''super_game.sfc''] \<notin> dirs s"
  note r = scenario_main[OF a]
  show "fst (manifest_main s) =
        [Print (''Copying romfs:/super_game.sfc -> /roms/snes/super_game.sfc'' @ [LF]),
         Print (''  Done.'' @ [LF]), Print (''Press PLUS to exit.'' @ [LF]), WaitPlus]"
    using r by (rule conjunct1)
  show "files (snd (manifest_main s)) [''roms'', ''snes'', ''super_game.sfc''] = Some data"
    using r by (rule conjunct2)
qed


text \<open>A card with the manifest of the scenario and a ROM of ten bytes.\<close>

definition snes_card :: world where
  "snes_card =
     \<lparr>dirs = {},
      files = [[''romfs:'', ''filelist.txt''] \<mapsto> ''snes'' @ [TAB] @ ''super_game.sfc'' @ [LF],
               [''romfs:'', ''super_game.sfc''] \<mapsto> ''0123456789''],
      readonly = False, max_file = 4096, open_streams = 0, romfs_rc = 0\<rparr>"

lemma snes_line:
  "fgets 768 (''snes'' @ [TAB] @ ''super_game.sfc'' @ [LF]) =
     Some ((''snes'' @ [TAB] @ ''super_game.sfc'') @ [LF], [])"
  "trim_crlf ((''snes'' @ [TAB] @ ''super_game.sfc'') @ [LF]) \<noteq> []"
  "sscanf_manifest (trim_crlf ((''snes'' @ [TAB] @ ''super_game.sfc'') @ [LF]))
     = (2, ''snes'', ''super_game.sfc'')"
proof -
  show "fgets 768 (''snes'' @ [TAB] @ ''super_game.sfc'' @ [LF]) =
     Some ((''snes'' @ [TAB] @ ''super_game.sfc'') @ [LF], [])"
    using fgets_snes by simp
  show "trim_crlf ((''snes'' @ [TAB] @ ''super_game.sfc'') @ [LF]) \<noteq> []"
    unfolding trim_snes by simp
  show "sscanf_manifest (trim_crlf ((''snes'' @ [TAB] @ ''super_game.sfc'') @ [LF]))
     = (2, ''snes'', ''super_game.sfc'')"
    unfolding trim_snes by (rule sscanf_snes)
qed

theorem entry_paths_and_scenario_witness:
  "fst (manifest_main snes_card) =
     [Print (''Copying romfs:/super_game.sfc -> /roms/snes/super_game.sfc'' @ [LF]),
      Print (''  Done.'' @ [LF]), Print (''Press PLUS to exit.'' @ [LF]), WaitPlus] \<and>
   files (snd (manifest_main snes_card)) [''roms'', ''snes'', ''super_game.sfc''] = Some ''0123456789'' \<and>
   hd (fst (main_loop snes_card (''snes'' @ [TAB] @ ''super_game.sfc'' @ [LF]))) =
     Print (''Copying romfs:/super_game.sfc -> /roms/snes/super_game.sfc'' @ [LF])"
proof -
  have h: "\<not> R_FAILED (romfs_rc snes_card)"
    "files snes_card [''romfs:'', ''filelist.txt''] = Some (''snes'' @ [TAB] @ ''super_game.sfc'' @ [LF])"
    "files snes_card [''romfs:'', ''super_game.sfc''] = Some ''0123456789''"
    "length ''0123456789'' \<le> max_file snes_card"
    "\<not> readonly snes_card" "files snes_card [''roms''] = None"
    "files snes_card [''roms'', ''snes''] = None"
    "[''roms'', ''snes'', ''super_game.sfc''] \<notin> dirs snes_card"
    by (simp_all add: snes_card_def R_FAILED_def)
  note a = entry_paths_and_scenario[THEN conjunct2, rule_format, OF h]
  note b = entry_paths_and_scenario[THEN conjunct1, rule_format, OF snes_line, of snes_card]
  have "hd (fst (main_loop snes_card (''snes'' @ [TAB] @ ''super_game.sfc'' @ [LF]))) =
     Print (''Copying romfs:/super_game.sfc -> /roms/snes/super_game.sfc'' @ [LF])"
    unfolding b by simp
  then show ?thesis
    using a by simp
qed





subsection \<open>A second run over the same card\<close>

text \<open>
  Induction over the manifest, line by line, along the four ways in which the loop of
  \<open>main\<close> treats what \<open>fgets\<close> returns.
\<close>

lemma main_loop_none: "fgets 768 rest = None \<Longrightarrow> main_loop s rest = ([], s)"
  by (subst main_loop.simps) simp

lemma manifest_induct [case_names eof blank bad entry]:
  assumes "\<And>rest. fgets 768 rest = None \<Longrightarrow> P rest"
    and "\<And>rest raw rest'. fgets 768 rest = Some (raw, rest') \<Longrightarrow> trim_crlf raw = [] \<Longrightarrow>
           P rest' \<Longrightarrow> P rest"
    and "\<And>rest raw rest'. fgets 768 rest = Some (raw, rest') \<Longrightarrow> trim_crlf raw \<noteq> [] \<Longrightarrow>
           fst (sscanf_manifest (trim_crlf raw)) \<noteq> 2 \<Longrightarrow> P rest' \<Longrightarrow> P rest"
    and "\<And>rest raw rest' platform filename.
           fgets 768 rest = Some (raw, rest') \<Longrightarrow> trim_crlf raw \<noteq> [] \<Longrightarrow>
           sscanf_manifest (trim_crlf raw) = (2, platform, filename) \<Longrightarrow> P rest' \<Longrightarrow> P rest"
  shows "P rest"
proof (induction "length rest" arbitrary: rest rule: less_induct)
  case less
  show ?case
  proof (cases "fgets 768 rest")
    case None
    then show ?thesis by (rule assms(1))
  next
    case (Some r)
    obtain raw rest' where r: "r = (raw, rest')"
      by (cases r)
    have f: "fgets 768 rest = Some (raw, rest')"
      using Some r by simp
    have "length rest' < length rest"
      using fgets_shorter[OF f] by simp
    then have ih: "P rest'"
      by (rule less)
    show ?thesis
    proof (cases "trim_crlf raw = []")
      case True
      show ?thesis by (rule assms(2)[OF f True ih])
    next
      case False
      obtain n platform filename where p: "sscanf_manifest (trim_crlf raw) = (n, platform, filename)"
        by (cases "sscanf_manifest (trim_crlf raw)")
      show ?thesis
      proof (cases "n = 2")
        case True
        show ?thesis
          by (rule assms(4)[OF f False p[unfolded True] ih])
      next
        case n: False
        then have "fst (sscanf_manifest (trim_crlf raw)) \<noteq> 2"
          by (simp add: p)
        then show ?thesis
          by (rule assms(3)[OF f False _ ih])
      qed
    qed
  qed
qed

text \<open>On a read-only card a run changes nothing.\<close>

lemma mkdir_readonly: "readonly s \<Longrightarrow> snd (mkdir s name) = s"
  by (simp add: mkdir_def Let_def writable_def)

lemma mkpath_loop_readonly: "readonly s \<Longrightarrow> mkpath_loop pre rest s = s"
  by (induction rest arbitrary: pre) (simp_all add: mkdir_readonly)

lemma mkpath_readonly: "readonly s \<Longrightarrow> snd (mkpath s path) = s"
  by (cases "take 1023 path") (simp_all add: snd_mkpath mkpath_loop_readonly mkdir_readonly)

lemma ensure_dir_readonly: "readonly s \<Longrightarrow> ensure_dir s dstPath = s"
  by (simp add: ensure_dir_def Let_def mkpath_readonly split: option.splits)

lemma fopen_wb_readonly: "readonly s \<Longrightarrow> fopen_wb s name = None"
  by (simp add: fopen_wb_def Let_def writable_def)

lemma copyFile_readonly:
  assumes "readonly s"
  shows "snd (copyFile s srcPath dstPath) = s"
proof (cases "fopen_rb s srcPath")
  case None
  then show ?thesis by (simp add: copyFile_def)
next
  case (Some r)
  obtain src s1 where r: "r = (src, s1)"
    by (cases r)
  have s1: "s1 = s\<lparr>open_streams := open_streams s + 1\<rparr>"
    using fopen_rb_stream[of s srcPath src s1] Some r by simp
  have ro: "readonly s1"
    using assms by (simp add: s1)
  have "snd (copyFile s srcPath dstPath) = fclose s1"
    by (simp add: copyFile_def Some r Let_def ensure_dir_readonly[OF ro] fopen_wb_readonly[OF ro])
  also have "\<dots> = s"
    by (simp add: s1 fclose_def)
  finally show ?thesis .
qed

lemma main_loop_readonly: "readonly s \<Longrightarrow> snd (main_loop s rest) = s"
proof (induction rest rule: manifest_induct)
  case (eof rest)
  then show ?case by (simp add: main_loop_none)
next
  case (blank rest raw rest')
  then show ?case by (simp add: main_loop_blank[OF blank(1,2)])
next
  case (bad rest raw rest')
  then show ?case by (simp add: main_loop_bad[OF bad(1,2,3)])
next
  case (entry rest raw rest' platform filename)
  then show ?case
    by (simp add: main_loop_entry_paths[OF entry(1,2,3)] copyFile_readonly)
qed

text \<open>
  What a run does to a card: directories and files are added, never removed, the archive
  is left as it is, and every stream that was opened is closed again.
\<close>

definition extends :: "world \<Rightarrow> world \<Rightarrow> bool" where
  "extends a b =
     (dirs a \<subseteq> dirs b \<and> (\<forall>p. files a p \<noteq> None \<longrightarrow> files b p \<noteq> None) \<and>
      (\<forall>p. on_romfs p \<longrightarrow> files b p = files a p) \<and>
      readonly b = readonly a \<and> max_file b = max_file a \<and>
      open_streams b = open_streams a \<and> romfs_rc b = romfs_rc a)"

lemma extends_refl: "extends s s"
  by (simp add: extends_def)

lemma extends_trans: "extends a b \<Longrightarrow> extends b c \<Longrightarrow> extends a c"
  unfolding extends_def by (intro conjI) (blast, simp_all)

lemma well_formed_streams:
  "well_formed (s\<lparr>open_streams := n\<rparr>) = well_formed s"
  by (simp add: well_formed_def is_dir_def)

text \<open>The state that \<open>copyFile\<close> leaves for an entry, case by case.\<close>

lemma copyFile_entry_state:
  fixes s :: world
  assumes "on_romfs (resolve srcPath)" and "dstPath = dir @ SLASH # base" and "under_roms dir"
    and "SLASH \<notin> set base" and "\<And>s. ensure_dir s dstPath = snd (mkpath s dir)"
  defines "m \<equiv> snd (mkpath (s\<lparr>open_streams := open_streams s + 1\<rparr>) dir)"
  defines "p \<equiv> split_path dir @ [base]"
  defines "fails \<equiv> base = [] \<or> p \<in> dirs m \<or> \<not> is_dir m (split_path dir) \<or> readonly s"
  shows "ends_slash srcPath \<or> files s (resolve srcPath) = None \<Longrightarrow>
           copyFile s srcPath dstPath = (MAKERESULT Module_Libnx LibnxError_NotFound, s)"
    and "\<not> (ends_slash srcPath \<or> files s (resolve srcPath) = None) \<Longrightarrow> fails \<Longrightarrow>
           copyFile s srcPath dstPath = (MAKERESULT Module_Libnx LibnxError_IoError, fclose m)"
    and "\<not> (ends_slash srcPath \<or> files s (resolve srcPath) = None) \<Longrightarrow> \<not> fails \<Longrightarrow>
           copyFile s srcPath dstPath =
             (if length (content s (resolve srcPath)) \<le> max_file s then 0
              else MAKERESULT Module_Libnx LibnxError_IoError,
              m\<lparr>files := (files s)(p \<mapsto> take (max_file s) (content s (resolve srcPath))),
                open_streams := open_streams s\<rparr>)"
proof -
  note c = copyFile_entry[OF assms(1,3,4) assms(5)[unfolded assms(2)], of s, folded assms(2) m_def p_def]
  show "ends_slash srcPath \<or> files s (resolve srcPath) = None \<Longrightarrow>
           copyFile s srcPath dstPath = (MAKERESULT Module_Libnx LibnxError_NotFound, s)"
    by (subst c) (simp only: if_True)
  show "\<not> (ends_slash srcPath \<or> files s (resolve srcPath) = None) \<Longrightarrow> fails \<Longrightarrow>
           copyFile s srcPath dstPath = (MAKERESULT Module_Libnx LibnxError_IoError, fclose m)"
    unfolding fails_def by (subst c) (simp only: if_True if_False)
  show "\<not> (ends_slash srcPath \<or> files s (resolve srcPath) = None) \<Longrightarrow> \<not> fails \<Longrightarrow>
           copyFile s srcPath dstPath =
             (if length (content s (resolve srcPath)) \<le> max_file s then 0
              else MAKERESULT Module_Libnx LibnxError_IoError,
              m\<lparr>files := (files s)(p \<mapsto> take (max_file s) (content s (resolve srcPath))),
                open_streams := open_streams s\<rparr>)"
    unfolding fails_def by (subst c) (simp only: if_False)
qed

lemma copyFile_extends:
  assumes "on_romfs (resolve srcPath)" and "entry_dst dstPath" and "well_formed s"
  shows "extends s (snd (copyFile s srcPath dstPath)) \<and> well_formed (snd (copyFile s srcPath dstPath))"
proof -
  from entry_dst_split_strong[OF assms(2)] obtain dir base where
    d: "dstPath = dir @ SLASH # base" "SLASH \<notin> set base" "under_roms dir" "length dir \<le> 1023"
      "\<And>s. ensure_dir s dstPath = snd (mkpath s dir)"
      "strrchr (take 1023 dstPath) SLASH = Some (length dir)"
      "take (length dir) (take 1023 dstPath) = dir"
    by blast
  define m where "m = snd (mkpath (s\<lparr>open_streams := open_streams s + 1\<rparr>) dir)"
  define p where "p = split_path dir @ [base]"
  define A where "A = snd (copyFile s srcPath dstPath)"
  note st = copyFile_entry_state[OF assms(1) d(1,3,2,5), of s, folded m_def p_def]
  have g: "grows (s\<lparr>open_streams := open_streams s + 1\<rparr>) m"
    unfolding m_def by (rule mkpath_grows)
  have w: "well_formed m"
    unfolding m_def using assms(3) by (intro mkpath_well_formed) (simp add: well_formed_streams)
  have gm: "dirs s \<subseteq> dirs m" "files m = files s" "readonly m = readonly s"
    "max_file m = max_file s" "open_streams m = open_streams s + 1" "romfs_rc m = romfs_rc s"
    using g by (simp_all add: grows_def)
  consider (nf) "ends_slash srcPath \<or> files s (resolve srcPath) = None"
    | (io) "\<not> (ends_slash srcPath \<or> files s (resolve srcPath) = None)"
        "base = [] \<or> p \<in> dirs m \<or> \<not> is_dir m (split_path dir) \<or> readonly s"
    | (ok) "\<not> (ends_slash srcPath \<or> files s (resolve srcPath) = None)"
        "\<not> (base = [] \<or> p \<in> dirs m \<or> \<not> is_dir m (split_path dir) \<or> readonly s)"
    by argo
  then have "extends s A \<and> well_formed A"
  proof cases
    case nf
    have "A = s"
      unfolding A_def by (simp only: st(1)[OF nf] snd_conv)
    then show ?thesis
      using assms(3) by (simp add: extends_refl)
  next
    case io
    have "A = fclose m"
      unfolding A_def by (simp only: st(2)[OF io] snd_conv)
    then show ?thesis
      using gm w by (simp add: extends_def fclose_def well_formed_streams)
  next
    case ok
    have a: "A = m\<lparr>files := (files s)(p \<mapsto> take (max_file s) (content s (resolve srcPath))),
                         open_streams := open_streams s\<rparr>"
      unfolding A_def by (simp only: st(3)[OF ok] snd_conv)
    from ok(2) have b: "base \<noteq> []" "p \<notin> dirs m"
      by simp_all
    have "resolve (dir @ SLASH # base) = p"
      using entry_dst_resolve(1)[OF d(3,2)] b(1) by (simp add: p_def)
    then have nr: "\<not> on_romfs p"
      using entry_dst_resolve(3)[OF d(3,2)] by simp
    have e: "extends s A"
      using gm nr by (auto simp: extends_def a)
    have "well_formed A"
      using w b(2) gm(2) by (auto simp: well_formed_def is_dir_def a)
    with e show ?thesis ..
  qed
  then show ?thesis
    by (simp only: A_def)
qed

lemma main_loop_extends:
  "well_formed s \<Longrightarrow> extends s (snd (main_loop s rest)) \<and> well_formed (snd (main_loop s rest))"
proof (induction rest arbitrary: s rule: manifest_induct)
  case (eof rest)
  then show ?case by (simp add: main_loop_none extends_refl)
next
  case (blank rest raw rest')
  then show ?case by (simp add: main_loop_blank[OF blank(1,2)])
next
  case (bad rest raw rest')
  then show ?case by (simp add: main_loop_bad[OF bad(1,2,3)])
next
  case (entry rest raw rest' platform filename)
  note f = sscanf_manifest_fields[OF entry(3)]
  have ed: "entry_dst (dst_of platform filename)"
    using f by (intro dst_of_entry) simp_all
  define A where "A = snd (copyFile s (src_of filename) (dst_of platform filename))"
  have c: "extends s A \<and> well_formed A"
    unfolding A_def by (rule copyFile_extends[OF src_of_romfs ed entry(5)])
  then have "extends A (snd (main_loop A rest')) \<and> well_formed (snd (main_loop A rest'))"
    by (intro entry(4)) simp
  moreover have "snd (main_loop s rest) = snd (main_loop A rest')"
    by (simp add: main_loop_entry_paths[OF entry(1,2,3)] A_def)
  ultimately show ?case
    using c extends_trans by simp blast
qed

text \<open>
  One entry, copied on two cards \<open>a\<close> and \<open>b\<close>, where \<open>b\<close> already has every directory
  and every file that the copy leaves on \<open>a\<close>: the copy on \<open>b\<close> ends with the same result,
  creates nothing, and writes the same bytes to the same file.
\<close>

lemma entry_sim:
  assumes src: "on_romfs (resolve srcPath)" and dst: "entry_dst dstPath"
    and wa: "well_formed a" and wb: "well_formed b" and rw: "\<not> readonly a"
    and cfg: "readonly b = readonly a" "max_file b = max_file a"
    and arch: "\<And>q. on_romfs q \<Longrightarrow> files b q = files a q"
    and dd: "dirs (snd (copyFile a srcPath dstPath)) \<subseteq> dirs b"
    and df: "\<And>q. files (snd (copyFile a srcPath dstPath)) q \<noteq> None \<Longrightarrow> files b q \<noteq> None"
  shows "fst (copyFile b srcPath dstPath) = fst (copyFile a srcPath dstPath) \<and>
         dirs (snd (copyFile b srcPath dstPath)) = dirs b \<and>
         (\<forall>q. (files (snd (copyFile b srcPath dstPath)) q \<noteq> None) = (files b q \<noteq> None)) \<and>
         (\<forall>q. files (snd (copyFile b srcPath dstPath)) q = files (snd (copyFile a srcPath dstPath)) q \<or>
              (files (snd (copyFile b srcPath dstPath)) q = files b q \<and>
               files (snd (copyFile a srcPath dstPath)) q = files a q))"
proof -
  from entry_dst_split_strong[OF dst] obtain dir base where
    d: "dstPath = dir @ SLASH # base" "SLASH \<notin> set base" "under_roms dir" "length dir \<le> 1023"
      "\<And>s. ensure_dir s dstPath = snd (mkpath s dir)"
      "strrchr (take 1023 dstPath) SLASH = Some (length dir)"
      "take (length dir) (take 1023 dstPath) = dir"
    by blast
  define a1 where "a1 = a\<lparr>open_streams := open_streams a + 1\<rparr>"
  define b1 where "b1 = b\<lparr>open_streams := open_streams b + 1\<rparr>"
  define ma where "ma = snd (mkpath a1 dir)"
  define mb where "mb = snd (mkpath b1 dir)"
  define p where "p = split_path dir @ [base]"
  define A where "A = snd (copyFile a srcPath dstPath)"
  define B where "B = snd (copyFile b srcPath dstPath)"
  define data where "data = take (max_file a) (content a (resolve srcPath))"
  note sa = copyFile_entry_state[OF src d(1,3,2,5), of a, folded a1_def, folded ma_def p_def data_def]
  have ceq: "content b (resolve srcPath) = content a (resolve srcPath)"
    by (simp add: content_def arch[OF src])
  note sb = copyFile_entry_state[OF src d(1,3,2,5), of b, folded b1_def, folded mb_def p_def,
      unfolded ceq cfg, folded data_def]
  have feq: "files b (resolve srcPath) = files a (resolve srcPath)"
    by (rule arch[OF src])
  have b1: "dirs b1 = dirs b" "files b1 = files b" "well_formed b1"
    using wb by (simp_all add: b1_def well_formed_streams)
  have "fst (copyFile b srcPath dstPath) = fst (copyFile a srcPath dstPath) \<and> dirs B = dirs b \<and>
        (\<forall>q. (files B q \<noteq> None) = (files b q \<noteq> None)) \<and>
        (\<forall>q. files B q = files A q \<or> (files B q = files b q \<and> files A q = files a q))"
  proof (cases "ends_slash srcPath \<or> files a (resolve srcPath) = None")
    case True
    have "copyFile a srcPath dstPath = (MAKERESULT Module_Libnx LibnxError_NotFound, a)"
      by (rule sa(1)[OF True])
    moreover have "copyFile b srcPath dstPath = (MAKERESULT Module_Libnx LibnxError_NotFound, b)"
      by (rule sb(1)[OF True[folded feq]])
    ultimately show ?thesis
      by (simp add: A_def B_def)
  next
    case False
    have nb: "\<not> (ends_slash srcPath \<or> files b (resolve srcPath) = None)"
      using False by (simp add: feq)
    have "well_formed a1" "\<not> readonly a1"
      using wa rw by (simp_all add: a1_def well_formed_streams)
    from mkpath_reached[OF d(3,4) this]
    have ra: "well_formed ma" "reached ma (split_path dir)" "grows a1 ma"
      by (simp_all add: ma_def)
    have fma: "files ma = files a"
      using ra(3) by (simp add: grows_def a1_def)
    have Ad: "dirs A = dirs ma \<and> (\<forall>q. files a q \<noteq> None \<longrightarrow> files A q \<noteq> None)"
    proof (cases "base = [] \<or> p \<in> dirs ma \<or> \<not> is_dir ma (split_path dir) \<or> readonly a")
      case True
      show ?thesis
        unfolding A_def sa(2)[OF False True] by (simp add: fclose_def fma)
    next
      case ok: False
      show ?thesis
        unfolding A_def sa(3)[OF False ok] by simp
    qed
    have sub: "dirs ma \<subseteq> dirs b1"
      using dd Ad by (simp add: A_def b1(1))
    have fsub: "files b1 q \<noteq> None" if "files ma q \<noteq> None" for q
      using that df[of q] Ad by (simp add: A_def b1(2) fma)
    note sat = saturated_from_reached[OF ra(2) ra(1) b1(3) sub fsub]
    have mb: "mb = b1"
      unfolding mb_def by (rule mkpath_saturated[OF d(3,4) sat(1)])
    show ?thesis
    proof (cases "base = [] \<or> p \<in> dirs ma \<or> \<not> is_dir ma (split_path dir) \<or> readonly a")
      case True
      have "base = [] \<or> p \<in> dirs b1 \<or> \<not> is_dir b1 (split_path dir) \<or> readonly a"
        using True sub sat(2) by blast
      then have fb: "base = [] \<or> p \<in> dirs mb \<or> \<not> is_dir mb (split_path dir) \<or> readonly a"
        by (simp only: mb)
      have "copyFile b srcPath dstPath = (MAKERESULT Module_Libnx LibnxError_IoError, fclose b1)"
        using sb(2)[OF nb fb] by (simp only: mb)
      moreover have "fclose b1 = b"
        by (simp add: fclose_def b1_def)
      moreover have "copyFile a srcPath dstPath = (MAKERESULT Module_Libnx LibnxError_IoError, fclose ma)"
        by (rule sa(2)[OF False True])
      ultimately show ?thesis
        by (simp add: A_def B_def fclose_def fma)
    next
      case ok: False
      have ca: "copyFile a srcPath dstPath =
                  (if length (content a (resolve srcPath)) \<le> max_file a then 0
                   else MAKERESULT Module_Libnx LibnxError_IoError,
                   ma\<lparr>files := (files a)(p \<mapsto> data), open_streams := open_streams a\<rparr>)"
        by (rule sa(3)[OF False ok])
      then have "files A p \<noteq> None"
        by (simp add: A_def)
      then have "files b p \<noteq> None"
        unfolding A_def by (rule df)
      then have pb: "p \<notin> dirs b"
        using wb by (auto simp: well_formed_def)
      have "is_dir ma (split_path dir)"
        using ok by simp
      then have "is_dir b1 (split_path dir)"
        using sub by (auto simp: is_dir_def split: if_splits)
      then have "\<not> (base = [] \<or> p \<in> dirs b1 \<or> \<not> is_dir b1 (split_path dir) \<or> readonly a)"
        using ok pb rw by (simp add: b1(1))
      then have fb: "\<not> (base = [] \<or> p \<in> dirs mb \<or> \<not> is_dir mb (split_path dir) \<or> readonly a)"
        unfolding mb .
      have cb: "copyFile b srcPath dstPath =
                  (if length (content a (resolve srcPath)) \<le> max_file a then 0
                   else MAKERESULT Module_Libnx LibnxError_IoError,
                   b1\<lparr>files := (files b)(p \<mapsto> data), open_streams := open_streams b\<rparr>)"
        using sb(3)[OF nb fb] by (simp only: mb)
      show ?thesis
        using \<open>files b p \<noteq> None\<close> by (simp add: A_def B_def ca cb b1(1))
    qed
  qed
  then show ?thesis
    unfolding A_def B_def .
qed

text \<open>
  The relation between the first run, at state \<open>a\<close> with final state \<open>F\<close>, and the second
  run, at state \<open>b\<close>, when both have read the same part of the manifest: \<open>b\<close> has the
  directories and the file names of \<open>F\<close>, and every file of \<open>b\<close> holds what it holds in
  \<open>a\<close> or what it holds in \<open>F\<close>.
\<close>

definition follows :: "world \<Rightarrow> world \<Rightarrow> world \<Rightarrow> bool" where
  "follows a b F =
     (well_formed a \<and> well_formed b \<and> \<not> readonly a \<and> readonly b = readonly a \<and>
      max_file b = max_file a \<and> open_streams b = open_streams a \<and> romfs_rc b = romfs_rc a \<and>
      dirs b = dirs F \<and> (\<forall>p. (files b p \<noteq> None) = (files F p \<noteq> None)) \<and>
      (\<forall>p. files b p = files a p \<or> files b p = files F p) \<and>
      (\<forall>p. on_romfs p \<longrightarrow> files b p = files a p))"

lemma follows_end: "follows a b a \<Longrightarrow> b = a"
proof -
  assume f: "follows a b a"
  then have "files b = files a"
    by (intro ext) (auto simp: follows_def)
  with f show ?thesis
    by (simp add: follows_def)
qed

lemma follows_step:
  assumes f: "follows a b F" and src: "on_romfs (resolve srcPath)" and dst: "entry_dst dstPath"
    and e: "extends (snd (copyFile a srcPath dstPath)) F"
  shows "fst (copyFile b srcPath dstPath) = fst (copyFile a srcPath dstPath) \<and>
         follows (snd (copyFile a srcPath dstPath)) (snd (copyFile b srcPath dstPath)) F"
proof -
  define A where "A = snd (copyFile a srcPath dstPath)"
  define B where "B = snd (copyFile b srcPath dstPath)"
  from f have wa: "well_formed a" and wb: "well_formed b" and rw: "\<not> readonly a"
    and cfg: "readonly b = readonly a" "max_file b = max_file a"
    and cfg': "open_streams b = open_streams a" "romfs_rc b = romfs_rc a"
    and db: "dirs b = dirs F" and fb: "\<And>p. (files b p \<noteq> None) = (files F p \<noteq> None)"
    and st: "\<And>p. files b p = files a p \<or> files b p = files F p"
    and arch: "\<And>q. on_romfs q \<Longrightarrow> files b q = files a q"
    by (simp_all add: follows_def)
  have eA: "extends a A" "well_formed A"
    using copyFile_extends[OF src dst wa] by (simp_all add: A_def)
  have eB: "extends b B" "well_formed B"
    using copyFile_extends[OF src dst wb] by (simp_all add: B_def)
  have eF: "extends A F"
    using e by (simp add: A_def)
  have dd: "dirs A \<subseteq> dirs b"
    using eF by (simp add: extends_def db)
  have df: "files b q \<noteq> None" if "files A q \<noteq> None" for q
    using that eF fb by (simp add: extends_def)
  note sim = entry_sim[OF src dst wa wb rw cfg arch dd[unfolded A_def] df[unfolded A_def],
      folded A_def B_def]
  from sim have r: "fst (copyFile b srcPath dstPath) = fst (copyFile a srcPath dstPath)"
    and dB: "dirs B = dirs b" and fB: "\<And>q. (files B q \<noteq> None) = (files b q \<noteq> None)"
    and cB: "\<And>q. files B q = files A q \<or> (files B q = files b q \<and> files A q = files a q)"
    by simp_all
  have 1: "\<not> readonly A" "readonly B = readonly A" "max_file B = max_file A"
    "open_streams B = open_streams A" "romfs_rc B = romfs_rc A"
    using eA(1) eB(1) rw cfg cfg' by (simp_all add: extends_def)
  have 2: "files B q = files A q \<or> files B q = files F q" for q
    using cB[of q] st[of q] by metis
  have 3: "files B q = files A q" if "on_romfs q" for q
    using that eA(1) eB(1) arch[of q] by (simp add: extends_def)
  have "follows A B F"
    unfolding follows_def using eA(2) eB(2) 1 dB db fB fb 2 3 by simp
  with r show ?thesis
    by (simp add: A_def B_def)
qed

lemma main_loop_sim:
  "follows a b (snd (main_loop a rest)) \<Longrightarrow> main_loop b rest = main_loop a rest"
proof (induction rest arbitrary: a b rule: manifest_induct)
  case (eof rest)
  then show ?case
    using follows_end[of a b] by (simp add: main_loop_none)
next
  case (blank rest raw rest')
  then show ?case by (simp add: main_loop_blank[OF blank(1,2)])
next
  case (bad rest raw rest')
  then show ?case by (simp add: main_loop_bad[OF bad(1,2,3)])
next
  case (entry rest raw rest' platform filename)
  note fl = sscanf_manifest_fields[OF entry(3)]
  have ed: "entry_dst (dst_of platform filename)"
    using fl by (intro dst_of_entry) simp_all
  define A where "A = snd (copyFile a (src_of filename) (dst_of platform filename))"
  define B where "B = snd (copyFile b (src_of filename) (dst_of platform filename))"
  define F where "F = snd (main_loop A rest')"
  have F: "snd (main_loop a rest) = F"
    by (simp add: main_loop_entry_paths[OF entry(1,2,3)] A_def F_def)
  have f: "follows a b F"
    using entry(5) by (simp only: F)
  then have "well_formed a"
    by (simp add: follows_def)
  then have "well_formed A"
    unfolding A_def using copyFile_extends[OF src_of_romfs ed] by blast
  then have "extends A F"
    unfolding F_def using main_loop_extends by blast
  from follows_step[OF f src_of_romfs ed this[unfolded A_def]]
  have r: "fst (copyFile b (src_of filename) (dst_of platform filename)) =
           fst (copyFile a (src_of filename) (dst_of platform filename))"
    and "follows A B F"
    by (simp_all add: A_def B_def)
  then have "main_loop B rest' = main_loop A rest'"
    unfolding F_def by (intro entry(4))
  then show ?case
    by (simp add: main_loop_entry_paths[OF entry(1,2,3)] A_def[symmetric] B_def[symmetric] r)
qed

lemma manifest_main_run:
  assumes "\<not> R_FAILED (romfs_rc s)" and "files s [''romfs:'', ''filelist.txt''] = Some m"
  shows "manifest_main s =
     (fst (main_loop (s\<lparr>open_streams := open_streams s + 1\<rparr>) m) @
        [Print (''Press PLUS to exit.'' @ [LF]), WaitPlus],
      fclose (snd (main_loop (s\<lparr>open_streams := open_streams s + 1\<rparr>) m)))"
proof -
  define s1 where "s1 = s\<lparr>open_streams := open_streams s + 1\<rparr>"
  have o: "fopen_rb s (snprintf 128 (''romfs:/'' @ FILELIST)) = Some (([''romfs:'', ''filelist.txt''], 0), s1)"
    using assms(2)
    by (simp add: fopen_rb_def resolve_listPath[simplified] ends_slash_listPath[simplified] Let_def s1_def)
  have c: "content s1 [''romfs:'', ''filelist.txt''] = m"
    using assms(2) by (simp add: content_def s1_def)
  have "manifest_main s =
     (fst (main_loop s1 (content s1 [''romfs:'', ''filelist.txt''])) @
        [Print (''Press PLUS to exit.'' @ [LF]), WaitPlus],
      fclose (snd (main_loop s1 (content s1 [''romfs:'', ''filelist.txt'']))))"
    using assms(1) by (simp add: manifest_main_def Let_def o[simplified] case_prod_beta)
  with c show ?thesis
    by (simp add: s1_def)
qed

text \<open>
  Claim C3. On a card whose tree is well formed, a second run of the manifest stub, started
  from the card that the first run left, prints what the first run printed and leaves the
  card as the first run left it: every destination file holds the same bytes after both
  runs, and no entry fails in the second run that did not fail in the first. For a
  destination directory of which every segment exists already, so that every \<open>mkdir\<close>
  of \<open>mkpath\<close> ends with \<open>EEXIST\<close>, \<open>mkpath\<close> returns 0 and changes nothing.
\<close>

theorem second_run_repeats_first:
  assumes "well_formed s"
  shows "manifest_main (snd (manifest_main s)) = manifest_main s \<and>
         (\<forall>dir. under_roms dir \<and> length dir \<le> 1023 \<and> is_dir s (split_path dir) \<longrightarrow>
                mkpath s dir = (0, s))"
proof
  show "\<forall>dir. under_roms dir \<and> length dir \<le> 1023 \<and> is_dir s (split_path dir) \<longrightarrow> mkpath s dir = (0, s)"
  proof (intro allI impI)
    fix dir
    assume h: "under_roms dir \<and> length dir \<le> 1023 \<and> is_dir s (split_path dir)"
    then have "reached s (split_path dir)"
      by (simp add: reached_def)
    from saturated_from_reached(1)[OF this assms assms subset_refl]
    have "saturated s (split_path dir)"
      by simp
    with h have st: "snd (mkpath s dir) = s"
      by (intro mkpath_saturated) simp_all
    have "fst (mkpath s dir) = 0"
    proof (rule ccontr)
      assume "fst (mkpath s dir) \<noteq> 0"
      with h have "\<not> is_dir (snd (mkpath s dir)) (split_path dir)"
        by (intro mkpath_fails) simp_all
      with h st show False
        by simp
    qed
    with st show "mkpath s dir = (0, s)"
      by (simp add: prod_eq_iff)
  qed
  show "manifest_main (snd (manifest_main s)) = manifest_main s"
  proof (cases "R_FAILED (romfs_rc s) \<or> files s [''romfs:'', ''filelist.txt''] = None")
    case True
    then have "snd (manifest_main s) = s"
    proof
      assume "R_FAILED (romfs_rc s)"
      then show "snd (manifest_main s) = s"
        by (simp add: manifest_main_def Let_def)
    next
      assume "files s [''romfs:'', ''filelist.txt''] = None"
      then have "fopen_rb s (snprintf 128 (''romfs:/'' @ FILELIST)) = None"
        by (simp add: fopen_rb_def resolve_listPath[simplified] Let_def)
      then show "snd (manifest_main s) = s"
        by (simp add: manifest_main_def Let_def)
    qed
    then show ?thesis by simp
  next
    case False
    then obtain m where rc: "\<not> R_FAILED (romfs_rc s)" and m: "files s [''romfs:'', ''filelist.txt''] = Some m"
      by auto
    define s1 where "s1 = s\<lparr>open_streams := open_streams s + 1\<rparr>"
    define F where "F = snd (main_loop s1 m)"
    have run: "manifest_main s = (fst (main_loop s1 m) @ [Print (''Press PLUS to exit.'' @ [LF]), WaitPlus], fclose F)"
      unfolding F_def s1_def by (rule manifest_main_run[OF rc m])
    show ?thesis
    proof (cases "readonly s")
      case True
      then have "F = s1"
        unfolding F_def by (intro main_loop_readonly) (simp add: s1_def)
      then have "snd (manifest_main s) = s"
        by (simp add: run fclose_def s1_def)
      then show ?thesis by simp
    next
      case rw: False
      have w1: "well_formed s1"
        using assms by (simp add: s1_def well_formed_streams)
      from main_loop_extends[OF w1, of m] have e: "extends s1 F" and wF: "well_formed F"
        by (simp_all add: F_def)
      have lp: "on_romfs [''romfs:'', ''filelist.txt'']"
        by (simp add: on_romfs_def)
      have os: "open_streams F = open_streams s + 1" and rcF: "romfs_rc F = romfs_rc s"
        and mF: "files F [''romfs:'', ''filelist.txt''] = Some m"
        using e lp m by (simp_all add: extends_def s1_def)
      have reopen: "(fclose F)\<lparr>open_streams := open_streams (fclose F) + 1\<rparr> = F"
        by (simp add: fclose_def os)
      have rc': "\<not> R_FAILED (romfs_rc (fclose F))"
        using rc by (simp add: fclose_def rcF)
      have m': "files (fclose F) [''romfs:'', ''filelist.txt''] = Some m"
        using mF by (simp add: fclose_def)
      have "follows s1 F F"
        using e w1 wF rw by (simp add: follows_def extends_def s1_def)
      then have "main_loop F m = main_loop s1 m"
        unfolding F_def by (rule main_loop_sim)
      then have "manifest_main (fclose F) = manifest_main s"
        unfolding manifest_main_run[OF rc' m'] reopen run by (simp add: F_def)
      then show ?thesis
        by (simp add: run)
    qed
  qed
qed

definition copied_card :: world where
  "copied_card =
     \<lparr>dirs = {[''roms''], [''roms'', ''snes'']},
      files = [[''romfs:'', ''filelist.txt''] \<mapsto> ''snes'' @ [TAB] @ ''super_game.sfc'' @ [LF],
               [''romfs:'', ''super_game.sfc''] \<mapsto> ''0123456789'',
               [''roms'', ''snes'', ''super_game.sfc''] \<mapsto> ''0123456789''],
      readonly = False, max_file = 4096, open_streams = 0, romfs_rc = 0\<rparr>"

theorem second_run_repeats_first_witness:
  "well_formed copied_card \<and>
   manifest_main (snd (manifest_main copied_card)) = manifest_main copied_card \<and>
   under_roms ''/roms/snes'' \<and> length ''/roms/snes'' \<le> 1023 \<and>
   is_dir copied_card (split_path ''/roms/snes'') \<and>
   mkpath copied_card ''/roms/snes'' = (0, copied_card)"
proof -
  have w: "well_formed copied_card"
    by (simp add: well_formed_def copied_card_def is_dir_def)
  have u: "under_roms ''/roms/snes''"
    by (simp add: under_roms_def)
  have dp: "split_path ''/roms/snes'' = [''roms'', ''snes'']"
    by (simp add: SLASH_def)
  have d: "is_dir copied_card (split_path ''/roms/snes'')"
    unfolding dp by (simp add: is_dir_def copied_card_def)
  have l: "length ''/roms/snes'' \<le> 1023"
    by simp
  note t = second_run_repeats_first[OF w]
  from t have 1: "manifest_main (snd (manifest_main copied_card)) = manifest_main copied_card"
    by (rule conjunct1)
  from t u l d have 2: "mkpath copied_card ''/roms/snes'' = (0, copied_card)"
    by blast
  show ?thesis
    by (intro conjI w 1 u l d 2)
qed

end
